theory Spec2Isabelle
  imports Main "HOL-Library.Word" "HOL-Library.AList"
begin

section \<open>Data model of the engine\<close>

text \<open>
  The engine is a pointer graph: every \<open>CircuitNode\<close> object holds references to other
  node objects in its \<open>inputs\<close> and \<open>outputs\<close> arrays, and a \<open>Circuit\<close> holds a
  \<open>Map\<close> from identifier strings to node objects. Objects are modelled by references
  (natural numbers) into an explicit heap, so that aliasing and in-place mutation are
  visible. Reference equality of the source (\<open>includes\<close>, \<open>indexOf\<close>) is equality of
  references.

  The class of a node object is fixed by its constructor, which passes its own tag to
  the base constructor; the tag \<open>type\<close> is never reassigned. The model therefore
  dispatches \<open>compute\<close> and the \<open>instanceof InputNode\<close> test on the tag.

  The canvas imports a sixth class \<open>XorGate\<close> from the engine and creates it for the
  tag \<open>'XOR'\<close>; the declaration of that class is not part of the engine source at hand.
\<close>

datatype NodeType = AND | OR | NOT | INPUT | OUTPUT | XOR

type_synonym ref = nat

record CircuitNode =
  id_n :: string
  type :: NodeType
  inputs :: "ref list"
  outputs :: "ref list"
  value_n :: bool
  x_n :: int
  y_n :: int
  label :: string

type_synonym heap = "ref \<Rightarrow> CircuitNode"

text \<open>The store: the heap of node objects and the next unused reference.\<close>

record world =
  heap :: heap
  next_ref :: ref

text \<open>
  \<open>Circuit.nodes\<close> is a JavaScript \<open>Map\<close>: insertion ordered, \<open>set\<close> on a present key
  replaces the value in place, \<open>size\<close> is the number of entries. It is an association
  list with \<open>map_of\<close> for \<open>get\<close>, \<open>AList.update\<close> for \<open>set\<close> and
  \<open>AList.delete\<close> for \<open>delete\<close>.
\<close>

record Circuit =
  nodes :: "(string \<times> ref) list"

datatype error = CycleDetected

definition node_refs :: "Circuit \<Rightarrow> ref list" where
  "node_refs c = map snd (nodes c)"

definition type_name :: "NodeType \<Rightarrow> string" where
  "type_name t = (case t of AND \<Rightarrow> ''AND'' | OR \<Rightarrow> ''OR'' | NOT \<Rightarrow> ''NOT''
     | INPUT \<Rightarrow> ''INPUT'' | OUTPUT \<Rightarrow> ''OUTPUT'' | XOR \<Rightarrow> ''XOR'')"

text \<open>The base constructor: \<open>label || type\<close> falls back to the tag on an empty label.\<close>

definition new_CircuitNode ::
  "world \<Rightarrow> string \<Rightarrow> NodeType \<Rightarrow> int \<Rightarrow> int \<Rightarrow> string \<Rightarrow> world \<times> ref" where
  "new_CircuitNode w i t x y l =
     (w\<lparr>heap := (heap w)(next_ref w :=
          \<lparr>id_n = i, type = t, inputs = [], outputs = [], value_n = False,
           x_n = x, y_n = y, label = (if l = [] then type_name t else l)\<rparr>),
        next_ref := Suc (next_ref w)\<rparr>,
      next_ref w)"

definition new_InputNode :: "world \<Rightarrow> string \<Rightarrow> int \<Rightarrow> int \<Rightarrow> world \<times> ref" where
  "new_InputNode w i x y = new_CircuitNode w i INPUT x y ''INPUT''"

definition new_OutputNode :: "world \<Rightarrow> string \<Rightarrow> int \<Rightarrow> int \<Rightarrow> world \<times> ref" where
  "new_OutputNode w i x y = new_CircuitNode w i OUTPUT x y []"

definition new_AndGate :: "world \<Rightarrow> string \<Rightarrow> int \<Rightarrow> int \<Rightarrow> world \<times> ref" where
  "new_AndGate w i x y = new_CircuitNode w i AND x y []"

definition new_OrGate :: "world \<Rightarrow> string \<Rightarrow> int \<Rightarrow> int \<Rightarrow> world \<times> ref" where
  "new_OrGate w i x y = new_CircuitNode w i OR x y []"

definition new_NotGate :: "world \<Rightarrow> string \<Rightarrow> int \<Rightarrow> int \<Rightarrow> world \<times> ref" where
  "new_NotGate w i x y = new_CircuitNode w i NOT x y []"

section \<open>Node operations\<close>

text \<open>
  \<open>addInput\<close>: \<open>this\<close> is \<open>t\<close>, the argument is \<open>s\<close>. The second write reads the heap
  after the first, which matters when \<open>s = t\<close>.
\<close>

definition addInput :: "heap \<Rightarrow> ref \<Rightarrow> ref \<Rightarrow> heap" where
  "addInput h t s =
     (if s \<notin> set (inputs (h t)) then
        let h1 = h(t := (h t)\<lparr>inputs := inputs (h t) @ [s]\<rparr>);
            h2 = h1(s := (h1 s)\<lparr>outputs := outputs (h1 s) @ [t]\<rparr>)
        in h2
      else h)"

text \<open>
  \<open>removeInput\<close>: \<open>indexOf\<close> finds the first occurrence and \<open>splice(index, 1)\<close>
  removes it, which is \<open>remove1\<close>; on the \<open>outputs\<close> side \<open>remove1\<close> of an absent
  element is the identity, as the guarded splice is.
\<close>

definition removeInput :: "heap \<Rightarrow> ref \<Rightarrow> ref \<Rightarrow> heap" where
  "removeInput h t s =
     (if s \<in> set (inputs (h t)) then
        let h1 = h(t := (h t)\<lparr>inputs := remove1 s (inputs (h t))\<rparr>);
            h2 = h1(s := (h1 s)\<lparr>outputs := remove1 t (outputs (h1 s))\<rparr>)
        in h2
      else h)"

definition InputNode_compute :: "heap \<Rightarrow> ref \<Rightarrow> bool" where
  "InputNode_compute h r = value_n (h r)"

definition OutputNode_compute :: "heap \<Rightarrow> ref \<Rightarrow> bool" where
  "OutputNode_compute h r =
     (if length (inputs (h r)) > 0 then value_n (h (inputs (h r) ! 0)) else False)"

definition AndGate_compute :: "heap \<Rightarrow> ref \<Rightarrow> bool" where
  "AndGate_compute h r = list_all (\<lambda>inp. value_n (h inp)) (inputs (h r))"

definition OrGate_compute :: "heap \<Rightarrow> ref \<Rightarrow> bool" where
  "OrGate_compute h r = list_ex (\<lambda>inp. value_n (h inp)) (inputs (h r))"

definition NotGate_compute :: "heap \<Rightarrow> ref \<Rightarrow> bool" where
  "NotGate_compute h r =
     (if length (inputs (h r)) > 0 then \<not> value_n (h (inputs (h r) ! 0)) else False)"

text \<open>
  Modelled from the spec: \<open>XorGate.compute\<close>. The class \<open>XorGate\<close> is imported from
  the engine by \<open>ui/canvas.ts\<close> but its declaration is missing from the engine source.
  The spec (4.1): "XOR: true iff an odd number of its input nodes are true."
\<close>

definition XorGate_compute :: "heap \<Rightarrow> ref \<Rightarrow> bool" where
  "XorGate_compute h r = odd (length (filter (\<lambda>inp. value_n (h inp)) (inputs (h r))))"

text \<open>The abstract method \<open>compute\<close>, dispatched on the class of the object.\<close>

definition compute :: "heap \<Rightarrow> ref \<Rightarrow> bool" where
  "compute h r =
     (case type (h r) of
        INPUT \<Rightarrow> InputNode_compute h r
      | OUTPUT \<Rightarrow> OutputNode_compute h r
      | AND \<Rightarrow> AndGate_compute h r
      | OR \<Rightarrow> OrGate_compute h r
      | NOT \<Rightarrow> NotGate_compute h r
      | XOR \<Rightarrow> XorGate_compute h r)"

definition setValue :: "heap \<Rightarrow> ref \<Rightarrow> bool \<Rightarrow> heap" where
  "setValue h r v = h(r := (h r)\<lparr>value_n := v\<rparr>)"

section \<open>Circuit operations\<close>

definition addNode :: "heap \<Rightarrow> Circuit \<Rightarrow> ref \<Rightarrow> Circuit" where
  "addNode h c r = c\<lparr>nodes := AList.update (id_n (h r)) r (nodes c)\<rparr>"

text \<open>
  \<open>removeNode\<close>: both \<open>forEach\<close> loops run over a copy of the array taken when the
  loop starts; the copy of \<open>node.outputs\<close> is taken after the first loop has run.
\<close>

definition removeNode :: "heap \<Rightarrow> Circuit \<Rightarrow> string \<Rightarrow> heap \<times> Circuit" where
  "removeNode h c nodeId =
     (case map_of (nodes c) nodeId of
        None \<Rightarrow> (h, c)
      | Some node \<Rightarrow>
          let h1 = fold (\<lambda>inp h'. removeInput h' node inp) (inputs (h node)) h;
              h2 = fold (\<lambda>out h'. removeInput h' out node) (outputs (h1 node)) h1
          in (h2, c\<lparr>nodes := AList.delete nodeId (nodes c)\<rparr>))"

definition addConnection :: "heap \<Rightarrow> Circuit \<Rightarrow> string \<Rightarrow> string \<Rightarrow> heap" where
  "addConnection h c fromId toId =
     (case (map_of (nodes c) fromId, map_of (nodes c) toId) of
        (Some from, Some to) \<Rightarrow> addInput h to from
      | _ \<Rightarrow> h)"

subsection \<open>Kahn's algorithm\<close>

text \<open>
  \<open>inDegree\<close> is a \<open>Map<string, number>\<close>. Its values are JavaScript numbers:
  \<open>undefined - 1\<close> is \<open>NaN\<close>, which no later decrement brings back to a number and
  which is never \<open>=== 0\<close>.
\<close>

datatype number = Num int | NaN

type_synonym inDegreeMap = "(string \<times> number) list"

text \<open>\<open>(inDegree.get(k) || 0) + 1\<close>: \<open>undefined\<close>, \<open>NaN\<close> and \<open>0\<close> are falsy.\<close>

definition or_zero_plus_one :: "number option \<Rightarrow> number" where
  "or_zero_plus_one v = (case v of Some (Num n) \<Rightarrow> Num (n + 1) | _ \<Rightarrow> Num 1)"

text \<open>\<open>inDegree.get(k)! - 1\<close>: the assertion \<open>!\<close> has no effect at run time.\<close>

definition minus_one :: "number option \<Rightarrow> number" where
  "minus_one v = (case v of Some (Num n) \<Rightarrow> Num (n - 1) | _ \<Rightarrow> NaN)"

definition init_inDegree :: "heap \<Rightarrow> Circuit \<Rightarrow> inDegreeMap" where
  "init_inDegree h c =
     fold (\<lambda>(k, node) m. AList.update (id_n (h node)) (Num 0) m) (nodes c) []"

definition count_out :: "heap \<Rightarrow> ref \<Rightarrow> inDegreeMap \<Rightarrow> inDegreeMap" where
  "count_out h out m =
     AList.update (id_n (h out)) (or_zero_plus_one (map_of m (id_n (h out)))) m"

definition count_inDegree :: "heap \<Rightarrow> Circuit \<Rightarrow> inDegreeMap \<Rightarrow> inDegreeMap" where
  "count_inDegree h c m0 =
     fold (\<lambda>(k, node) m. fold (count_out h) (outputs (h node)) m) (nodes c) m0"

definition initial_queue :: "heap \<Rightarrow> Circuit \<Rightarrow> inDegreeMap \<Rightarrow> ref list" where
  "initial_queue h c m =
     map snd (filter (\<lambda>(k, node). map_of m (id_n (h node)) = Some (Num 0)) (nodes c))"

text \<open>The body of \<open>u.outputs.forEach\<close>: decrement, then enqueue on reaching zero.\<close>

definition relax :: "heap \<Rightarrow> ref \<Rightarrow> inDegreeMap \<times> ref list \<Rightarrow> inDegreeMap \<times> ref list" where
  "relax h v st =
     (case st of (m, queue) \<Rightarrow>
        let m' = AList.update (id_n (h v)) (minus_one (map_of m (id_n (h v)))) m
        in (m', if map_of m' (id_n (h v)) = Some (Num 0) then queue @ [v] else queue))"

definition is_positive :: "number \<Rightarrow> bool" where
  "is_positive d = (case d of Num n \<Rightarrow> 0 < n | NaN \<Rightarrow> False)"

definition positive_entries :: "inDegreeMap \<Rightarrow> nat" where
  "positive_entries m = length (filter (\<lambda>(k, d). is_positive d) m)"

lemma positive_entries_update:
  "positive_entries (AList.update k d m)
       + (case map_of m k of None \<Rightarrow> 0 | Some d0 \<Rightarrow> if is_positive d0 then 1 else 0)
     = positive_entries m + (if is_positive d then 1 else 0)"
  by (induction m) (auto simp: positive_entries_def)

lemma relax_measure:
  "relax h v (m, q) = (m', q') \<Longrightarrow>
     length q' + positive_entries m' = length q + positive_entries m"
proof -
  assume a: "relax h v (m, q) = (m', q')"
  let ?k = "id_n (h v)"
  let ?d = "minus_one (map_of m ?k)"
  from a have m': "m' = AList.update ?k ?d m"
    and q': "q' = (if ?d = Num 0 then q @ [v] else q)"
    by (auto simp: relax_def Let_def update_conv')
  have "(if ?d = Num 0 then 1 else 0) + (if is_positive ?d then 1 else 0)
          = (case map_of m ?k of None \<Rightarrow> 0 | Some d0 \<Rightarrow> if is_positive d0 then 1 else (0::nat))"
    by (auto simp: minus_one_def is_positive_def split: option.splits number.splits)
  with positive_entries_update [of ?k ?d m] show ?thesis
    unfolding m' q' by (simp split: if_splits)
qed

lemma fold_relax_measure:
  "fold (relax h) vs (m, q) = (m', q') \<Longrightarrow>
     length q' + positive_entries m' = length q + positive_entries m"
proof (induction vs arbitrary: m q)
  case Nil
  then show ?case by simp
next
  case (Cons v vs)
  obtain m1 q1 where r: "relax h v (m, q) = (m1, q1)" by (cases "relax h v (m, q)")
  from Cons.prems r have "fold (relax h) vs (m1, q1) = (m', q')" by simp
  from Cons.IH [OF this] relax_measure [OF r] show ?case by simp
qed

text \<open>
  The \<open>while (queue.length > 0)\<close> loop: \<open>shift\<close> takes the head, \<open>sorted.push\<close>
  appends it, then every successor is relaxed in the order of \<open>u.outputs\<close>.
\<close>

function process_queue :: "heap \<Rightarrow> inDegreeMap \<Rightarrow> ref list \<Rightarrow> ref list \<Rightarrow> ref list" where
  "process_queue h m [] sorted_n = sorted_n"
| "process_queue h m (u # queue) sorted_n =
     (case fold (relax h) (outputs (h u)) (m, queue) of
        (m', queue') \<Rightarrow> process_queue h m' queue' (sorted_n @ [u]))"
  by pat_completeness auto
termination
proof (relation "measure (\<lambda>(h, m, q, sorted_n). length q + positive_entries m)")
  show "wf (measure (\<lambda>(h, m, q, sorted_n). length q + positive_entries m))" by simp
next
  fix h :: heap and m :: inDegreeMap and u queue sorted_n x y
  assume "(x, y) = fold (relax h) (outputs (h u)) (m, queue)"
  then have "fold (relax h) (outputs (h u)) (m, queue) = (x, y)" by simp
  from fold_relax_measure [OF this]
  show "((h, x, y, sorted_n @ [u]), (h, m, u # queue, sorted_n))
          \<in> measure (\<lambda>(h, m, q, sorted_n). length q + positive_entries m)"
    by simp
qed

definition getEvaluationOrder :: "heap \<Rightarrow> Circuit \<Rightarrow> error + ref list" where
  "getEvaluationOrder h c =
     (let inDegree = count_inDegree h c (init_inDegree h c);
          queue = initial_queue h c inDegree;
          sorted_n = process_queue h inDegree queue []
      in if length sorted_n \<noteq> length (nodes c) then Inl CycleDetected else Inr sorted_n)"

subsection \<open>Evaluation\<close>

definition eval_node :: "ref \<Rightarrow> heap \<Rightarrow> heap" where
  "eval_node node h =
     (if type (h node) = INPUT then h else h(node := (h node)\<lparr>value_n := compute h node\<rparr>))"

text \<open>
  \<open>evaluate\<close> returns the heap it leaves behind together with the outcome: \<open>Inl\<close>
  is the \<open>CycleDetectedError\<close>, which the \<open>catch\<close> block rethrows, \<open>Inr ()\<close> the
  normal return. The order is computed before any write.
\<close>

definition evaluate :: "heap \<Rightarrow> Circuit \<Rightarrow> heap \<times> (error + unit)" where
  "evaluate h c =
     (case getEvaluationOrder h c of
        Inl e \<Rightarrow> (h, Inl e)
      | Inr order \<Rightarrow> (fold eval_node order h, Inr ()))"

subsection \<open>JavaScript 32-bit integer operators\<close>

text \<open>
  \<open><<\<close>, \<open>>>\<close> and \<open>&\<close> convert their operands to 32-bit two's complement integers
  and take the shift count modulo 32.
\<close>

definition js_shl :: "int \<Rightarrow> nat \<Rightarrow> int" where
  "js_shl a k = sint (push_bit (k mod 32) (word_of_int a :: 32 word))"

definition js_sar :: "int \<Rightarrow> nat \<Rightarrow> int" where
  "js_sar a k = sint (signed_drop_bit (k mod 32) (word_of_int a :: 32 word))"

definition js_and :: "int \<Rightarrow> int \<Rightarrow> int" where
  "js_and a b = sint (and (word_of_int a :: 32 word) (word_of_int b))"

subsection \<open>Plain objects keyed by strings\<close>

text \<open>
  The three parts of a truth-table row are plain JavaScript objects (\<open>{}\<close>) that are
  written by \<open>obj[key] = value\<close> with a boolean or a string as the value. Such an
  object is modelled by the list of its own properties in the order in which the
  language enumerates them: first the keys that are array indices (the decimal rendering,
  without leading zeros, of an integer below \<open>2 ^ 32 - 1\<close>) in ascending numeric order,
  then every other key in the order of its first assignment. An assignment to a key that
  is present replaces the value in place. An assignment to the key \<open>__proto__\<close>
  reaches the setter inherited from \<open>Object.prototype\<close>, which ignores a value that is
  neither an object nor \<open>null\<close>: it creates no property.

  Two decimal renderings without leading zeros compare as numbers when the shorter one
  is less and two of equal length compare digit by digit.
\<close>

definition digit_val :: "char \<Rightarrow> nat" where
  "digit_val ch = length (takeWhile (\<lambda>d. d \<noteq> ch) ''0123456789'')"

definition is_digit :: "char \<Rightarrow> bool" where
  "is_digit ch \<longleftrightarrow> digit_val ch < 10"

fun digits_less :: "string \<Rightarrow> string \<Rightarrow> bool" where
  "digits_less (a # as) (b # bs) =
     (if a = b then digits_less as bs else digit_val a < digit_val b)"
| "digits_less _ _ = False"

definition index_less :: "string \<Rightarrow> string \<Rightarrow> bool" where
  "index_less a b \<longleftrightarrow>
     (if length a = length b then digits_less a b else length a < length b)"

definition is_index :: "string \<Rightarrow> bool" where
  "is_index k \<longleftrightarrow>
     (case k of
        [] \<Rightarrow> False
      | ch # rest \<Rightarrow>
          list_all is_digit k \<and> (if ch = CHR ''0'' then rest = [] else True) \<and>
          index_less k ''4294967295'')"

text \<open>The place of a new key among the properties that are present.\<close>

fun js_put :: "string \<Rightarrow> 'v \<Rightarrow> (string \<times> 'v) list \<Rightarrow> (string \<times> 'v) list" where
  "js_put k v [] = [(k, v)]"
| "js_put k v (p # r) =
     (if is_index k \<and> (if is_index (fst p) then index_less k (fst p) else True)
      then (k, v) # p # r
      else p # js_put k v r)"

definition js_set :: "string \<Rightarrow> 'v \<Rightarrow> (string \<times> 'v) list \<Rightarrow> (string \<times> 'v) list" where
  "js_set k v r =
     (if k = ''__proto__'' then r
      else if map_of r k = None then js_put k v r
      else AList.update k v r)"

subsection \<open>Truth table\<close>

record TruthTableRow =
  inputs_row :: "(string \<times> bool) list"
  outputs_row :: "(string \<times> bool) list"
  inputLabels :: "(string \<times> string) list"

definition getNodesByType :: "heap \<Rightarrow> Circuit \<Rightarrow> NodeType \<Rightarrow> ref list" where
  "getNodesByType h c t = filter (\<lambda>n. type (h n) = t) (map snd (nodes c))"

text \<open>\<open>inputs.forEach((inp, idx) => inp.setValue(!!((i >> idx) & 1)))\<close>\<close>

definition set_inputs :: "heap \<Rightarrow> ref list \<Rightarrow> int \<Rightarrow> heap" where
  "set_inputs h ins i =
     fold (\<lambda>(inp, idx) h'. setValue h' inp (js_and (js_sar i idx) 1 \<noteq> 0))
       (zip ins [0..<length ins]) h"

text \<open>
  A row's three objects are keyed by node id, written in the order of the INPUT and
  OUTPUT nodes.
\<close>

definition make_row :: "heap \<Rightarrow> ref list \<Rightarrow> ref list \<Rightarrow> TruthTableRow" where
  "make_row h ins outs =
     \<lparr>inputs_row = fold (\<lambda>inp r. js_set (id_n (h inp)) (value_n (h inp)) r) ins [],
      outputs_row = fold (\<lambda>out r. js_set (id_n (h out)) (value_n (h out)) r) outs [],
      inputLabels = fold (\<lambda>inp r. js_set (id_n (h inp)) (label (h inp)) r) ins []\<rparr>"

text \<open>
  The \<open>for\<close> loop over the assignments. \<open>Inl\<close> is the exception caught by the
  \<open>try\<close> around \<open>evaluate\<close>, where the source returns the empty array at once.
\<close>

fun table_loop ::
  "Circuit \<Rightarrow> ref list \<Rightarrow> ref list \<Rightarrow> int list \<Rightarrow> heap \<Rightarrow> TruthTableRow list
     \<Rightarrow> heap \<times> (error + TruthTableRow list)" where
  "table_loop c ins outs [] h results = (h, Inr results)"
| "table_loop c ins outs (i # is) h results =
     (case evaluate (set_inputs h ins i) c of
        (h', Inl e) \<Rightarrow> (h', Inl e)
      | (h', Inr u) \<Rightarrow> table_loop c ins outs is h' (results @ [make_row h' ins outs]))"

definition table_run :: "heap \<Rightarrow> Circuit \<Rightarrow> heap \<times> (error + TruthTableRow list)" where
  "table_run h c =
     (let ins = getNodesByType h c INPUT;
          outs = getNodesByType h c OUTPUT;
          permutations = js_shl 1 (length ins)
      in table_loop c ins outs (map int [0..<nat permutations]) h [])"

definition getTruthTable :: "heap \<Rightarrow> Circuit \<Rightarrow> TruthTableRow list" where
  "getTruthTable h c = (case snd (table_run h c) of Inl e \<Rightarrow> [] | Inr results \<Rightarrow> results)"

section \<open>Synthesis engine\<close>

text \<open>
  Template literals render a non-negative integer in decimal, without leading zeros.
\<close>

definition digit_char :: "nat \<Rightarrow> char" where
  "digit_char d = ''0123456789'' ! d"

fun decimal :: "nat \<Rightarrow> string" where
  "decimal n = (if n < 10 then [digit_char n] else decimal (n div 10) @ [digit_char (n mod 10)])"

declare decimal.simps [simp del]

text \<open>The three families of generated identifiers.\<close>

definition INPUT_id :: "nat \<Rightarrow> string" where
  "INPUT_id i = ''INPUT_'' @ decimal i"

definition AND_id :: "nat \<Rightarrow> string" where
  "AND_id mIdx = ''AND_'' @ decimal mIdx"

definition NOT_id :: "nat \<Rightarrow> nat \<Rightarrow> string" where
  "NOT_id mIdx b = ''NOT_'' @ decimal mIdx @ ''_'' @ decimal b"

definition startX :: int where
  "startX = 100"

definition startY :: int where
  "startY = 100"

text \<open>
  The state of a build is the store, the circuit under construction and the local array
  the loop pushes to. Step 1, the body of the loop over \<open>i\<close>:
\<close>

definition create_input ::
  "nat \<Rightarrow> world \<times> Circuit \<times> ref list \<Rightarrow> world \<times> Circuit \<times> ref list" where
  "create_input i st =
     (case st of (w, c, inputNodes) \<Rightarrow>
        (case new_InputNode w (INPUT_id i) startX (startY + int i * 120) of
           (w', node) \<Rightarrow> (w', addNode (heap w') c node, inputNodes @ [node])))"

text \<open>
  The body of the loop over \<open>bit\<close> for one minterm: \<open>isOne\<close> is
  \<open>(rowIdx >> (inputCount - 1 - bit)) & 1\<close>, and \<open>inputs[bit]\<close> is in range because
  \<open>bit < inputCount\<close>, the length of the array.
\<close>

definition wire_bit ::
  "nat \<Rightarrow> ref list \<Rightarrow> int \<Rightarrow> nat \<Rightarrow> ref \<Rightarrow> nat \<Rightarrow> world \<times> Circuit \<Rightarrow> world \<times> Circuit" where
  "wire_bit inputCount inputNodes rowIdx mIdx andGate b st =
     (case st of (w, c) \<Rightarrow>
        let isOne = js_and (js_sar rowIdx (inputCount - 1 - b)) 1;
            inputNode = inputNodes ! b
        in if isOne \<noteq> 0 then
             (w\<lparr>heap := addConnection (heap w) c (id_n (heap w inputNode)) (id_n (heap w andGate))\<rparr>, c)
           else
             let notId = NOT_id mIdx b in
             (case new_NotGate w notId (startX + 200) (y_n (heap w andGate) + int b * 10 - 20) of
                (w1, notGate) \<Rightarrow>
                  let c1 = addNode (heap w1) c notGate;
                      h2 = addConnection (heap w1) c1 (id_n (heap w1 inputNode)) notId;
                      h3 = addConnection h2 c1 notId (id_n (h2 andGate))
                  in (w1\<lparr>heap := h3\<rparr>, c1)))"

text \<open>Step 3, the body of \<open>minterms.forEach((rowIdx, mIdx) => ...)\<close>:\<close>

definition build_minterm ::
  "nat \<Rightarrow> ref list \<Rightarrow> nat \<times> nat \<Rightarrow> world \<times> Circuit \<times> ref list \<Rightarrow> world \<times> Circuit \<times> ref list" where
  "build_minterm inputCount inputNodes rm st =
     (case (rm, st) of ((rowIdx, mIdx), (w, c, andGates)) \<Rightarrow>
        (case new_AndGate w (AND_id mIdx) (startX + 300) (startY + int mIdx * 80) of
           (w1, andGate) \<Rightarrow>
             (case fold (wire_bit inputCount inputNodes (int rowIdx) mIdx andGate) [0..<inputCount]
                     (w1, addNode (heap w1) c andGate) of
                (w2, c2) \<Rightarrow> (w2, c2, andGates @ [andGate]))))"

text \<open>Step 2: the rows whose desired output is true, in ascending order.\<close>

definition minterms_of :: "bool list \<Rightarrow> nat list" where
  "minterms_of outs = filter (\<lambda>idx. outs ! idx) [0..<length outs]"

text \<open>
  \<open>generateCircuit\<close> from the store \<open>w0\<close> it allocates in. It returns the store and the
  new circuit.
\<close>

definition generateCircuit :: "world \<Rightarrow> nat \<Rightarrow> bool list \<Rightarrow> world \<times> Circuit" where
  "generateCircuit w0 inputCount outs =
     (case fold create_input [0..<inputCount] (w0, \<lparr>nodes = []\<rparr>, []) of
        (w1, c1, inputNodes) \<Rightarrow>
          let minterms = minterms_of outs in
          if length minterms = 0 then
            (case new_OutputNode w1 ''OUTPUT_FINAL'' (startX + 600) (startY + 200) of
               (w2, out) \<Rightarrow> (w2, addNode (heap w2) c1 out))
          else
            (case fold (build_minterm inputCount inputNodes)
                    (zip minterms [0..<length minterms]) (w1, c1, []) of
               (w2, c2, andGates) \<Rightarrow>
                 (case new_OrGate w2 ''OR_FINAL'' (startX + 500) (startY + 200) of
                    (w3, orGate) \<Rightarrow>
                      let c3 = addNode (heap w3) c2 orGate;
                          h4 = fold (\<lambda>g h. addConnection h c3 (id_n (h g)) (id_n (h orGate)))
                                 andGates (heap w3)
                      in (case new_OutputNode (w3\<lparr>heap := h4\<rparr>) ''OUTPUT'' (startX + 600)
                                 (y_n (h4 orGate)) of
                            (w5, finalOut) \<Rightarrow>
                              let c5 = addNode (heap w5) c3 finalOut;
                                  h6 = addConnection (heap w5) c5 (id_n (heap w5 orGate))
                                         (id_n (heap w5 finalOut))
                              in (w5\<lparr>heap := h6\<rparr>, c5)))))"


subsection \<open>The 32-bit operators on the values that occur\<close>

lemma odd_word_of_int: "odd (word_of_int x :: 32 word) = odd x"
proof -
  have "odd (word_of_int x :: 32 word) = bit (word_of_int x :: 32 word) 0" by (simp add: bit_0)
  also have "\<dots> = bit x 0" by (simp add: bit_word_of_int_iff)
  finally show ?thesis by (simp add: bit_0)
qed

lemma js_and_one: "(js_and x 1 \<noteq> 0) = odd x"
proof -
  have "and (word_of_int x :: 32 word) 1 = of_bool (odd x)"
    by (simp add: and_one_eq mod_2_eq_odd odd_word_of_int)
  then show ?thesis by (simp add: js_and_def)
qed

lemma odd_js_sar: "odd (js_sar a k) = bit a (k mod 32)"
proof -
  have lt: "k mod 32 < 32" by simp
  have "odd (js_sar a k) = bit (js_sar a k) 0" by (simp add: bit_0)
  also have "\<dots> = bit a (k mod 32)"
    using lt by (simp add: js_sar_def bit_sint_iff bit_signed_drop_bit_iff bit_word_of_int_iff del: mod_less_divisor)
  finally show ?thesis .
qed

lemma js_bit: "(js_and (js_sar a k) 1 \<noteq> 0) = bit a (k mod 32)"
  by (simp only: js_and_one odd_js_sar)

lemma js_shl_one: "n < 31 \<Longrightarrow> js_shl 1 n = 2 ^ n"
proof -
  assume n: "n < 31"
  have le: "(2::int) ^ n < 2 ^ 31" by (rule power_strict_increasing) (use n in simp_all)
  have "push_bit n (1 :: 32 word) = word_of_int (2 ^ n)"
    by (simp add: word_of_int_2p)
  then have "sint (push_bit n (1 :: 32 word)) = sint (word_of_int (2 ^ n) :: 32 word)"
    by (rule arg_cong)
  also have "\<dots> = signed_take_bit 31 ((2::int) ^ n)"
    unfolding sint_sbintrunc' by simp
  also have "\<dots> = 2 ^ n"
  proof (rule signed_take_bit_int_eq_self)
    have "- (2 ^ 31) \<le> (0::int)" by simp
    also have "(0::int) \<le> 2 ^ n" by simp
    finally show "- (2 ^ 31) \<le> (2::int) ^ n" .
    show "(2::int) ^ n < 2 ^ 31" by (rule le)
  qed
  finally show ?thesis using n by (simp add: js_shl_def)
qed

lemma js_shl_31: "js_shl 1 31 = - 2147483648"
  by (simp add: js_shl_def)

section \<open>Node values\<close>

text \<open>
  C5. For a node of each kind and any state of its input list, \<open>compute\<close> returns the
  value of the per-kind table: INPUT its stored value; OUTPUT the value of its first
  input, false without inputs; AND true iff no input is false (true without inputs); OR
  true iff some input is true (false without inputs); NOT the negation of its first
  input, false without inputs; XOR true iff the number of input positions holding a true
  node is odd. The XOR row is about the class modelled from the spec.
\<close>

theorem compute_per_kind:
  "compute h r =
     (case type (h r) of
        INPUT \<Rightarrow> value_n (h r)
      | OUTPUT \<Rightarrow> (case inputs (h r) of [] \<Rightarrow> False | a # _ \<Rightarrow> value_n (h a))
      | AND \<Rightarrow> False \<notin> set (map (\<lambda>a. value_n (h a)) (inputs (h r)))
      | OR \<Rightarrow> True \<in> set (map (\<lambda>a. value_n (h a)) (inputs (h r)))
      | NOT \<Rightarrow> (case inputs (h r) of [] \<Rightarrow> False | a # _ \<Rightarrow> \<not> value_n (h a))
      | XOR \<Rightarrow> odd (card {i. i < length (inputs (h r)) \<and> value_n (h (inputs (h r) ! i))}))"
proof (cases "type (h r)")
  case AND
  then show ?thesis
    by (auto simp: compute_def AndGate_compute_def list_all_iff)
next
  case OR
  then show ?thesis
    by (auto simp: compute_def OrGate_compute_def list_ex_iff)
next
  case NOT
  then show ?thesis
    by (cases "inputs (h r)") (simp_all add: compute_def NotGate_compute_def)
next
  case INPUT
  then show ?thesis
    by (simp add: compute_def InputNode_compute_def)
next
  case OUTPUT
  then show ?thesis
    by (cases "inputs (h r)") (simp_all add: compute_def OutputNode_compute_def)
next
  case XOR
  then show ?thesis
    by (simp add: compute_def XorGate_compute_def length_filter_conv_card)
qed

section \<open>Well-formed circuits and the dependency graph\<close>

definition edges :: "heap \<Rightarrow> Circuit \<Rightarrow> (ref \<times> ref) set" where
  "edges h c = {(a, b). a \<in> set (node_refs c) \<and> b \<in> set (outputs (h a))}"

definition wellformed :: "heap \<Rightarrow> Circuit \<Rightarrow> bool" where
  "wellformed h c \<longleftrightarrow>
     distinct (map fst (nodes c)) \<and>
     (\<forall>(k, r) \<in> set (nodes c). id_n (h r) = k) \<and>
     (\<forall>a \<in> set (node_refs c).
        set (inputs (h a)) \<subseteq> set (node_refs c) \<and> set (outputs (h a)) \<subseteq> set (node_refs c) \<and>
        distinct (inputs (h a)) \<and> distinct (outputs (h a))) \<and>
     (\<forall>a \<in> set (node_refs c). \<forall>b \<in> set (node_refs c).
        a \<in> set (inputs (h b)) \<longleftrightarrow> b \<in> set (outputs (h a)))"

text \<open>
  What Kahn's algorithm relies on is less: the node map is keyed by the identifiers of
  its nodes, and no node of the map has an output outside the map.
\<close>

definition keyed :: "heap \<Rightarrow> Circuit \<Rightarrow> bool" where
  "keyed h c \<longleftrightarrow>
     distinct (map fst (nodes c)) \<and> (\<forall>(k, r) \<in> set (nodes c). id_n (h r) = k)"

definition outputs_closed :: "heap \<Rightarrow> Circuit \<Rightarrow> bool" where
  "outputs_closed h c \<longleftrightarrow>
     (\<forall>u \<in> set (node_refs c). set (outputs (h u)) \<subseteq> set (node_refs c))"

definition deg_is :: "heap \<Rightarrow> ref list \<Rightarrow> inDegreeMap \<Rightarrow> (ref \<Rightarrow> nat) \<Rightarrow> bool" where
  "deg_is h N m d \<longleftrightarrow> (\<forall>v \<in> set N. map_of m (id_n (h v)) = Some (Num (int (d v))))"

definition indeg_from :: "heap \<Rightarrow> ref list \<Rightarrow> ref \<Rightarrow> nat" where
  "indeg_from h us v = sum_list (map (\<lambda>u. count_list (outputs (h u)) v) us)"

definition pending :: "heap \<Rightarrow> ref list \<Rightarrow> ref list \<Rightarrow> ref \<Rightarrow> nat" where
  "pending h N s v = indeg_from h (filter (\<lambda>u. u \<notin> set s) N) v"

lemma fold_snd: "fold (\<lambda>(k, node). F node) xs = fold F (map snd xs)"
  by (simp add: fold_map comp_def case_prod_unfold)

lemma map_of_fold_zero:
  "map_of (fold (\<lambda>node m. AList.update (id_n (h node)) (Num 0) m) xs m0) k =
     (if k \<in> (\<lambda>node. id_n (h node)) ` set xs then Some (Num 0) else map_of m0 k)"
  by (induction xs arbitrary: m0) (auto simp: update_conv')

lemma init_inDegree_deg: "deg_is h (node_refs c) (init_inDegree h c) (\<lambda>v. 0)"
  by (simp add: deg_is_def init_inDegree_def fold_snd map_of_fold_zero node_refs_def)

lemma count_out_deg:
  assumes "deg_is h N m d" "inj_on (\<lambda>r. id_n (h r)) (set N)" "v0 \<in> set N"
  shows "deg_is h N (count_out h v0 m) (d(v0 := Suc (d v0)))"
  unfolding deg_is_def
proof
  fix v assume v: "v \<in> set N"
  show "map_of (count_out h v0 m) (id_n (h v)) = Some (Num (int ((d(v0 := Suc (d v0))) v)))"
  proof (cases "v = v0")
    case True
    with assms show ?thesis
      by (simp add: count_out_def update_conv' deg_is_def or_zero_plus_one_def)
  next
    case False
    with assms v have "id_n (h v) \<noteq> id_n (h v0)" by (auto dest: inj_onD)
    with assms v False show ?thesis
      by (simp add: count_out_def update_conv' deg_is_def)
  qed
qed

lemma fold_count_out_deg:
  assumes "inj_on (\<lambda>r. id_n (h r)) (set N)"
  shows "deg_is h N m d \<Longrightarrow> set outs \<subseteq> set N \<Longrightarrow>
     deg_is h N (fold (count_out h) outs m) (\<lambda>v. d v + count_list outs v)"
proof (induction outs arbitrary: m d)
  case Nil
  then show ?case by simp
next
  case (Cons x outs)
  from Cons.prems have "deg_is h N (count_out h x m) (d(x := Suc (d x)))"
    by (intro count_out_deg assms) auto
  from Cons.IH [OF this] Cons.prems(2)
  have "deg_is h N (fold (count_out h) outs (count_out h x m))
          (\<lambda>v. (d(x := Suc (d x))) v + count_list outs v)" by simp
  moreover have "(\<lambda>v. (d(x := Suc (d x))) v + count_list outs v) = (\<lambda>v. d v + count_list (x # outs) v)"
    by auto
  ultimately show ?case by simp
qed

lemma fold_nodes_count_deg:
  assumes "inj_on (\<lambda>r. id_n (h r)) (set N)"
  shows "deg_is h N m d \<Longrightarrow> \<forall>u \<in> set us. set (outputs (h u)) \<subseteq> set N \<Longrightarrow>
     deg_is h N (fold (\<lambda>u m. fold (count_out h) (outputs (h u)) m) us m)
       (\<lambda>v. d v + indeg_from h us v)"
proof (induction us arbitrary: m d)
  case Nil
  then show ?case by (simp add: indeg_from_def)
next
  case (Cons u us)
  from Cons.prems have "deg_is h N (fold (count_out h) (outputs (h u)) m)
      (\<lambda>v. d v + count_list (outputs (h u)) v)"
    by (intro fold_count_out_deg assms) auto
  from Cons.IH [OF this] Cons.prems(2)
  show ?case by (simp add: indeg_from_def add.assoc)
qed

lemma count_inDegree_deg:
  assumes "inj_on (\<lambda>r. id_n (h r)) (set (node_refs c))"
    and "\<forall>u \<in> set (node_refs c). set (outputs (h u)) \<subseteq> set (node_refs c)"
  shows "deg_is h (node_refs c) (count_inDegree h c (init_inDegree h c))
           (indeg_from h (node_refs c))"
proof -
  have "deg_is h (node_refs c)
          (fold (\<lambda>u m. fold (count_out h) (outputs (h u)) m) (node_refs c) (init_inDegree h c))
          (\<lambda>v. 0 + indeg_from h (node_refs c) v)"
    by (rule fold_nodes_count_deg [OF assms(1) init_inDegree_deg assms(2)])
  then show ?thesis
    by (simp add: count_inDegree_def fold_snd node_refs_def)
qed

lemma map_snd_filter:
  "\<forall>v \<in> snd ` set xs. P v = Q v \<Longrightarrow>
     map snd (filter (\<lambda>(k, node). P node) xs) = filter Q (map snd xs)"
  by (induction xs) auto

lemma initial_queue_filter:
  "deg_is h (node_refs c) m d \<Longrightarrow>
     initial_queue h c m = filter (\<lambda>v. d v = 0) (node_refs c)"
  unfolding initial_queue_def node_refs_def deg_is_def
  by (rule map_snd_filter) auto

lemma relax_deg:
  assumes "deg_is h N m d" "inj_on (\<lambda>r. id_n (h r)) (set N)" "v0 \<in> set N" "0 < d v0"
  shows "relax h v0 (m, q) = (AList.update (id_n (h v0)) (Num (int (d v0) - 1)) m,
            if d v0 = 1 then q @ [v0] else q)"
    and "deg_is h N (fst (relax h v0 (m, q))) (d(v0 := d v0 - 1))"
proof -
  from assms have g: "map_of m (id_n (h v0)) = Some (Num (int (d v0)))"
    by (simp add: deg_is_def)
  show r: "relax h v0 (m, q) = (AList.update (id_n (h v0)) (Num (int (d v0) - 1)) m,
            if d v0 = 1 then q @ [v0] else q)"
    using assms(4) by (auto simp: relax_def g minus_one_def update_conv' Let_def)
  show "deg_is h N (fst (relax h v0 (m, q))) (d(v0 := d v0 - 1))"
    unfolding deg_is_def r fst_conv
  proof
    fix v assume v: "v \<in> set N"
    show "map_of (AList.update (id_n (h v0)) (Num (int (d v0) - 1)) m) (id_n (h v))
            = Some (Num (int ((d(v0 := d v0 - 1)) v)))"
    proof (cases "v = v0")
      case True
      with assms(4) show ?thesis by (simp add: update_conv')
    next
      case False
      with assms v have "id_n (h v) \<noteq> id_n (h v0)" by (auto dest: inj_onD)
      with assms(1) v False show ?thesis by (simp add: update_conv' deg_is_def)
    qed
  qed
qed

lemma fold_relax_deg:
  assumes inj: "inj_on (\<lambda>r. id_n (h r)) (set N)"
  shows "deg_is h N m d \<Longrightarrow> set outs \<subseteq> set N \<Longrightarrow> \<forall>v \<in> set outs. count_list outs v \<le> d v \<Longrightarrow>
     \<exists>m' p. fold (relax h) outs (m, q) = (m', q @ p) \<and>
        deg_is h N m' (\<lambda>v. d v - count_list outs v) \<and>
        distinct p \<and> set p = {v \<in> set outs. d v = count_list outs v}"
proof (induction outs arbitrary: m d q)
  case Nil
  then show ?case by simp
next
  case (Cons x outs)
  let ?d1 = "d(x := d x - 1)"
  let ?q1 = "if d x = 1 then q @ [x] else q"
  from Cons.prems have x: "x \<in> set N" and pos: "0 < d x" by auto
  obtain m1 where r: "relax h x (m, q) = (m1, ?q1)" and d1: "deg_is h N m1 ?d1"
    using relax_deg [OF Cons.prems(1) inj x pos, of q] by auto
  have le: "\<forall>v \<in> set outs. count_list outs v \<le> ?d1 v"
  proof
    fix v assume v: "v \<in> set outs"
    with Cons.prems(3) have "count_list (x # outs) v \<le> d v" by simp
    then show "count_list outs v \<le> ?d1 v" by (cases "v = x") auto
  qed
  from Cons.prems have sub: "set outs \<subseteq> set N" by simp
  from Cons.IH [OF d1 sub le, of ?q1]
  obtain m' p where f: "fold (relax h) outs (m1, ?q1) = (m', ?q1 @ p)"
    and d': "deg_is h N m' (\<lambda>v. ?d1 v - count_list outs v)"
    and dp: "distinct p" and sp: "set p = {v \<in> set outs. ?d1 v = count_list outs v}"
    by blast
  have eq: "(\<lambda>v. ?d1 v - count_list outs v) = (\<lambda>v. d v - count_list (x # outs) v)"
    by auto
  have cx: "Suc (count_list outs x) \<le> d x" using Cons.prems(3) by simp
  let ?p = "(if d x = 1 then [x] else []) @ p"
  have 1: "fold (relax h) (x # outs) (m, q) = (m', q @ ?p)"
    using r f by simp
  have 2: "deg_is h N m' (\<lambda>v. d v - count_list (x # outs) v)"
    using d' eq by simp
  have 3: "distinct ?p"
  proof (cases "d x = 1")
    case True
    with cx have "count_list outs x = 0" by simp
    then have "x \<notin> set outs" by (simp add: count_list_0_iff)
    with sp dp True show ?thesis by simp
  next
    case False
    with dp show ?thesis by simp
  qed
  have 4: "set ?p = {v \<in> set (x # outs). d v = count_list (x # outs) v}"
  proof (rule set_eqI)
    fix v
    show "v \<in> set ?p \<longleftrightarrow> v \<in> {v \<in> set (x # outs). d v = count_list (x # outs) v}"
    proof (cases "v = x")
      case True
      have xo: "x \<in> set outs \<longleftrightarrow> 0 < count_list outs x"
        using count_list_0_iff [of outs x] by auto
      have xp: "x \<in> set p \<longleftrightarrow> x \<in> set outs \<and> d x - 1 = count_list outs x"
        using sp by auto
      have "x \<in> set ?p \<longleftrightarrow> d x = Suc (count_list outs x)"
        using xo xp cx pos by (cases "d x = 1") auto
      with True show ?thesis by simp
    next
      case False
      have "v \<in> set p \<longleftrightarrow> v \<in> set outs \<and> ?d1 v = count_list outs v"
        using sp by auto
      with False show ?thesis by auto
    qed
  qed
  from 1 2 3 4 show ?case by blast
qed

lemma sum_list_filter_remove:
  "distinct N \<Longrightarrow> u \<in> set N \<Longrightarrow> P u \<Longrightarrow>
     sum_list (map f (filter P N)) = (f u :: nat) + sum_list (map f (filter (\<lambda>x. P x \<and> x \<noteq> u) N))"
proof (induction N)
  case Nil
  then show ?case by simp
next
  case (Cons a N)
  show ?case
  proof (cases "a = u")
    case True
    with Cons.prems have "u \<notin> set N" by simp
    then have "filter (\<lambda>x. P x \<and> x \<noteq> u) N = filter P N"
      by (intro filter_cong) auto
    with True Cons.prems show ?thesis by simp
  next
    case False
    with Cons show ?thesis by simp
  qed
qed

lemma pending_snoc:
  assumes "distinct N" "u \<in> set N" "u \<notin> set s"
  shows "pending h N s v = count_list (outputs (h u)) v + pending h N (s @ [u]) v"
proof -
  have "filter (\<lambda>x. x \<notin> set s \<and> x \<noteq> u) N = filter (\<lambda>x. x \<notin> set (s @ [u])) N"
    by (intro filter_cong) auto
  with sum_list_filter_remove [OF assms(1,2), of "\<lambda>x. x \<notin> set s" "\<lambda>u. count_list (outputs (h u)) v"] assms(3)
  show ?thesis by (simp add: pending_def indeg_from_def)
qed

lemma pending_zero_iff:
  "pending h N s v = 0 \<longleftrightarrow> (\<forall>u \<in> set N. u \<notin> set s \<longrightarrow> v \<notin> set (outputs (h u)))"
  by (auto simp: pending_def indeg_from_def count_list_0_iff)

definition topo_prefix :: "heap \<Rightarrow> ref list \<Rightarrow> ref list \<Rightarrow> bool" where
  "topo_prefix h N s \<longleftrightarrow>
     (\<forall>i < length s. \<forall>u \<in> set N. s ! i \<in> set (outputs (h u)) \<longrightarrow> u \<in> set (take i s))"

definition kahn_inv :: "heap \<Rightarrow> ref list \<Rightarrow> inDegreeMap \<Rightarrow> ref list \<Rightarrow> ref list \<Rightarrow> bool" where
  "kahn_inv h N m q s \<longleftrightarrow>
     distinct (s @ q) \<and> set (s @ q) \<subseteq> set N \<and> deg_is h N m (pending h N s) \<and>
     (\<forall>v \<in> set N. v \<in> set (s @ q) \<longleftrightarrow> pending h N s v = 0) \<and> topo_prefix h N s"

definition kahn_result :: "heap \<Rightarrow> ref list \<Rightarrow> ref list \<Rightarrow> bool" where
  "kahn_result h N r \<longleftrightarrow>
     distinct r \<and> set r \<subseteq> set N \<and>
     (\<forall>v \<in> set N. v \<in> set r \<longleftrightarrow> pending h N r v = 0) \<and> topo_prefix h N r"

lemma topo_prefix_snoc:
  assumes "topo_prefix h N s" "\<forall>x \<in> set N. u \<in> set (outputs (h x)) \<longrightarrow> x \<in> set s"
  shows "topo_prefix h N (s @ [u])"
  unfolding topo_prefix_def
proof (intro allI impI ballI)
  fix i x
  assume i: "i < length (s @ [u])" and x: "x \<in> set N"
    and e: "(s @ [u]) ! i \<in> set (outputs (h x))"
  show "x \<in> set (take i (s @ [u]))"
  proof (cases "i < length s")
    case True
    with assms(1) x e show ?thesis by (auto simp: topo_prefix_def nth_append)
  next
    case False
    with i have "i = length s" by simp
    with assms(2) x e show ?thesis by simp
  qed
qed

lemma kahn_step:
  assumes inj: "inj_on (\<lambda>r. id_n (h r)) (set N)"
    and dist: "distinct N"
    and closed: "\<forall>u \<in> set N. set (outputs (h u)) \<subseteq> set N"
    and inv: "kahn_inv h N m (u # q) s"
    and f: "fold (relax h) (outputs (h u)) (m, q) = (m', q')"
  shows "kahn_inv h N m' q' (s @ [u])"
proof -
  let ?outs = "outputs (h u)"
  from inv have d: "distinct (s @ u # q)" and sub: "set (s @ u # q) \<subseteq> set N"
    and deg: "deg_is h N m (pending h N s)"
    and zero: "\<forall>v \<in> set N. v \<in> set (s @ u # q) \<longleftrightarrow> pending h N s v = 0"
    and topo: "topo_prefix h N s"
    by (simp_all add: kahn_inv_def)
  from d sub have uN: "u \<in> set N" and us: "u \<notin> set s" by auto
  have split: "pending h N s v = count_list ?outs v + pending h N (s @ [u]) v" for v
    by (rule pending_snoc [OF dist uN us])
  from closed uN have osub: "set ?outs \<subseteq> set N" by auto
  have le: "\<forall>v \<in> set ?outs. count_list ?outs v \<le> pending h N s v"
    using split by simp
  from fold_relax_deg [OF inj deg osub le, of q] f
  obtain p where q': "q' = q @ p"
    and deg': "deg_is h N m' (\<lambda>v. pending h N s v - count_list ?outs v)"
    and dp: "distinct p" and sp: "set p = {v \<in> set ?outs. pending h N s v = count_list ?outs v}"
    by auto
  have eq: "(\<lambda>v. pending h N s v - count_list ?outs v) = pending h N (s @ [u])"
    using split by auto
  have pin: "v \<in> set p \<longleftrightarrow> v \<in> set ?outs \<and> pending h N s v = count_list ?outs v" for v
    using sp by auto
  have pos: "v \<in> set ?outs \<Longrightarrow> 0 < count_list ?outs v" for v
    using count_list_0_iff [of ?outs v] by auto
  have disj: "v \<in> set p \<Longrightarrow> v \<notin> set (s @ u # q)" for v
  proof
    assume vp: "v \<in> set p" and vs: "v \<in> set (s @ u # q)"
    from vp osub have "v \<in> set N" by (auto simp: pin)
    with zero vs have "pending h N s v = 0" by blast
    with vp pos [of v] show False by (simp add: pin)
  qed
  have 1: "distinct ((s @ [u]) @ q')"
    using d dp disj unfolding q' by auto
  have 2: "set ((s @ [u]) @ q') \<subseteq> set N"
    using sub osub unfolding q' by (auto simp: pin)
  have 3: "deg_is h N m' (pending h N (s @ [u]))"
    using deg' eq by simp
  have 4: "\<forall>v \<in> set N. v \<in> set ((s @ [u]) @ q') \<longleftrightarrow> pending h N (s @ [u]) v = 0"
  proof
    fix v assume v: "v \<in> set N"
    have "v \<in> set ((s @ [u]) @ q') \<longleftrightarrow> v \<in> set (s @ u # q) \<or> v \<in> set p"
      unfolding q' by auto
    also have "\<dots> \<longleftrightarrow> pending h N s v = 0 \<or> v \<in> set p"
      using zero v by blast
    also have "\<dots> \<longleftrightarrow> pending h N (s @ [u]) v = 0"
      using split [of v] pos [of v] count_list_0_iff [of ?outs v] by (auto simp: pin)
    finally show "v \<in> set ((s @ [u]) @ q') \<longleftrightarrow> pending h N (s @ [u]) v = 0" .
  qed
  from zero uN have "u \<in> set (s @ u # q) \<longleftrightarrow> pending h N s u = 0" by blast
  then have "pending h N s u = 0" by simp
  then have "\<forall>x \<in> set N. u \<in> set (outputs (h x)) \<longrightarrow> x \<in> set s"
    by (auto simp: pending_zero_iff)
  with topo have 5: "topo_prefix h N (s @ [u])" by (rule topo_prefix_snoc)
  from 1 2 3 4 5 show ?thesis unfolding kahn_inv_def by blast
qed

lemma process_queue_result:
  "inj_on (\<lambda>r. id_n (h r)) (set N) \<Longrightarrow> distinct N \<Longrightarrow>
   \<forall>u \<in> set N. set (outputs (h u)) \<subseteq> set N \<Longrightarrow>
   kahn_inv h N m q s \<Longrightarrow> kahn_result h N (process_queue h m q s)"
proof (induction h m q s rule: process_queue.induct)
  case (1 h m s)
  then show ?case by (simp add: kahn_inv_def kahn_result_def)
next
  case (2 h m u queue s)
  obtain m' q' where f: "fold (relax h) (outputs (h u)) (m, queue) = (m', q')"
    by (cases "fold (relax h) (outputs (h u)) (m, queue)")
  from kahn_step [OF "2.prems"(1,2,3,4) f]
  have "kahn_inv h N m' q' (s @ [u])" .
  with "2.IH" [OF f [symmetric] "2.prems"(1,2,3)] f show ?case by simp
qed

lemma kahn_initial:
  assumes inj: "inj_on (\<lambda>r. id_n (h r)) (set (node_refs c))"
    and dist: "distinct (node_refs c)"
    and closed: "\<forall>u \<in> set (node_refs c). set (outputs (h u)) \<subseteq> set (node_refs c)"
  shows "kahn_inv h (node_refs c) (count_inDegree h c (init_inDegree h c))
           (initial_queue h c (count_inDegree h c (init_inDegree h c))) []"
proof -
  let ?N = "node_refs c"
  let ?m = "count_inDegree h c (init_inDegree h c)"
  have deg: "deg_is h ?N ?m (indeg_from h ?N)"
    by (rule count_inDegree_deg [OF inj closed])
  have q: "initial_queue h c ?m = filter (\<lambda>v. indeg_from h ?N v = 0) ?N"
    by (rule initial_queue_filter [OF deg])
  have p: "pending h ?N [] = indeg_from h ?N"
    by (rule ext) (simp add: pending_def)
  show ?thesis
    unfolding kahn_inv_def q p using deg dist by (auto simp: topo_prefix_def)
qed

lemma getEvaluationOrder_result:
  assumes inj: "inj_on (\<lambda>r. id_n (h r)) (set (node_refs c))"
    and dist: "distinct (node_refs c)"
    and closed: "\<forall>u \<in> set (node_refs c). set (outputs (h u)) \<subseteq> set (node_refs c)"
  shows "\<exists>r. kahn_result h (node_refs c) r \<and>
           getEvaluationOrder h c = (if length r \<noteq> length (node_refs c) then Inl CycleDetected else Inr r)"
proof -
  let ?m = "count_inDegree h c (init_inDegree h c)"
  let ?r = "process_queue h ?m (initial_queue h c ?m) []"
  have "kahn_result h (node_refs c) ?r"
    by (rule process_queue_result [OF inj dist closed kahn_initial [OF inj dist closed]])
  moreover have "getEvaluationOrder h c = (if length ?r \<noteq> length (node_refs c) then Inl CycleDetected else Inr ?r)"
    by (simp add: getEvaluationOrder_def Let_def node_refs_def)
  ultimately show ?thesis by blast
qed

lemma keyed_keys:
  assumes "keyed h c"
  shows "map fst (nodes c) = map (\<lambda>r. id_n (h r)) (node_refs c)"
  using assms unfolding keyed_def node_refs_def by (auto simp: case_prod_unfold)

lemma keyed_inj:
  assumes "keyed h c"
  shows "inj_on (\<lambda>r. id_n (h r)) (set (node_refs c))" and "distinct (node_refs c)"
proof -
  from assms have "distinct (map (\<lambda>r. id_n (h r)) (node_refs c))"
    using keyed_keys [OF assms] by (simp add: keyed_def)
  then show "inj_on (\<lambda>r. id_n (h r)) (set (node_refs c))" and "distinct (node_refs c)"
    by (simp_all add: distinct_map)
qed

lemma wellformed_keyed: "wellformed h c \<Longrightarrow> keyed h c"
  by (simp add: wellformed_def keyed_def)

lemma wellformed_outputs_closed: "wellformed h c \<Longrightarrow> outputs_closed h c"
  by (simp add: wellformed_def outputs_closed_def)

lemma wellformed_keys:
  assumes "wellformed h c"
  shows "map fst (nodes c) = map (\<lambda>r. id_n (h r)) (node_refs c)"
  by (rule keyed_keys [OF wellformed_keyed [OF assms]])

lemma wellformed_inj:
  assumes "wellformed h c"
  shows "inj_on (\<lambda>r. id_n (h r)) (set (node_refs c))" and "distinct (node_refs c)"
  by (rule keyed_inj [OF wellformed_keyed [OF assms]])+

lemma wellformed_closed:
  "wellformed h c \<Longrightarrow> \<forall>u \<in> set (node_refs c). set (outputs (h u)) \<subseteq> set (node_refs c)"
  by (simp add: wellformed_def)

lemma edges_finite: "finite (edges h c)"
proof -
  have "edges h c \<subseteq> set (node_refs c) \<times> (\<Union>a \<in> set (node_refs c). set (outputs (h a)))"
    by (auto simp: edges_def)
  then show ?thesis by (rule finite_subset) simp
qed

lemma kahn_result_complete:
  assumes ac: "acyclic (edges h c)"
    and res: "kahn_result h (node_refs c) r"
  shows "set r = set (node_refs c)"
proof (rule ccontr)
  let ?N = "node_refs c"
  assume "set r \<noteq> set ?N"
  with res obtain x where x: "x \<in> set ?N - set r" by (auto simp: kahn_result_def)
  have "wf (edges h c)" by (rule finite_acyclic_wf [OF edges_finite ac])
  from wfE_min [OF this x]
  obtain z where z: "z \<in> set ?N - set r" and min: "\<And>y. (y, z) \<in> edges h c \<Longrightarrow> y \<notin> set ?N - set r"
    by blast
  from res z have "pending h ?N r z \<noteq> 0" by (auto simp: kahn_result_def)
  then obtain u where "u \<in> set ?N" "u \<notin> set r" "z \<in> set (outputs (h u))"
    by (auto simp: pending_zero_iff)
  with min [of u] show False by (auto simp: edges_def)
qed

lemma topo_prefix_index:
  assumes "topo_prefix h N r" "distinct r" "set r \<subseteq> set N"
    and "i < length r" "j < length r" "r ! j \<in> set (outputs (h (r ! i)))"
  shows "i < j"
proof -
  from assms have "r ! i \<in> set (take j r)"
    unfolding topo_prefix_def by (metis nth_mem subsetD)
  then obtain i' where i': "i' < length (take j r)" "take j r ! i' = r ! i"
    by (auto simp: in_set_conv_nth)
  with assms(5) have "i' < j" "r ! i' = r ! i" by simp_all
  with assms(2,4,5) have "i' = i" by (simp add: nth_eq_iff_index_eq)
  with \<open>i' < j\<close> show ?thesis by simp
qed

lemma topo_prefix_path:
  assumes topo: "topo_prefix h (node_refs c) r"
    and path: "(a, b) \<in> (edges h c)\<^sup>+"
  shows "\<forall>j < length r. r ! j = b \<longrightarrow> (\<exists>i < j. r ! i = a)"
  using path
proof (induction rule: trancl_induct)
  case (base y)
  show ?case
  proof (intro allI impI)
    fix j assume j: "j < length r" "r ! j = y"
    from base have "a \<in> set (node_refs c)" "y \<in> set (outputs (h a))" by (auto simp: edges_def)
    with topo j have "a \<in> set (take j r)" by (auto simp: topo_prefix_def)
    then obtain i where "i < length (take j r)" "take j r ! i = a" by (auto simp: in_set_conv_nth)
    with j show "\<exists>i < j. r ! i = a" by auto
  qed
next
  case (step y z)
  show ?case
  proof (intro allI impI)
    fix k assume k: "k < length r" "r ! k = z"
    from step.hyps have "y \<in> set (node_refs c)" "z \<in> set (outputs (h y))" by (auto simp: edges_def)
    with topo k have "y \<in> set (take k r)" by (auto simp: topo_prefix_def)
    then obtain j where j: "j < length (take k r)" "take k r ! j = y" by (auto simp: in_set_conv_nth)
    with k have j': "j < length r" "r ! j = y" "j < k" by auto
    with step.IH obtain i where "i < j" "r ! i = a" by blast
    with j' show "\<exists>i < k. r ! i = a" by (intro exI [of _ i]) simp
  qed
qed

lemma kahn_result_cyclic:
  assumes dist: "distinct (node_refs c)" and cyc: "\<not> acyclic (edges h c)"
    and res: "kahn_result h (node_refs c) r"
  shows "length r \<noteq> length (node_refs c)"
proof
  let ?N = "node_refs c"
  assume len: "length r = length ?N"
  from res have d: "distinct r" and sub: "set r \<subseteq> set ?N" and topo: "topo_prefix h ?N r"
    by (simp_all add: kahn_result_def)
  from dist d len have "card (set r) = card (set ?N)"
    by (simp add: distinct_card)
  with sub have eq: "set r = set ?N" by (intro card_subset_eq) simp_all
  from cyc obtain x where x: "(x, x) \<in> (edges h c)\<^sup>+" by (auto simp: acyclic_def)
  then have "x \<in> set ?N" by (auto dest!: tranclD simp: edges_def)
  with eq have "x \<in> set r" by simp
  then obtain j where j: "j < length r" "r ! j = x" by (auto simp: in_set_conv_nth)
  with topo_prefix_path [OF topo x] obtain i where i: "i < j" "r ! i = x" by blast
  with j have "i < length r" "r ! i = r ! j" by simp_all
  with j(1) d have "i = j" using nth_eq_iff_index_eq [of r i j] by blast
  with i show False by simp
qed

lemma order_acyclic:
  assumes k: "keyed h c" and cl: "outputs_closed h c" and ac: "acyclic (edges h c)"
  shows "case getEvaluationOrder h c of
           Inl e \<Rightarrow> False
         | Inr order \<Rightarrow>
             distinct order \<and> set order = set (node_refs c) \<and>
             (\<forall>i < length order. \<forall>j < length order.
                order ! j \<in> set (outputs (h (order ! i))) \<longrightarrow> i < j)"
proof -
  let ?N = "node_refs c"
  from cl have cl': "\<forall>u \<in> set ?N. set (outputs (h u)) \<subseteq> set ?N" by (simp add: outputs_closed_def)
  from getEvaluationOrder_result [OF keyed_inj [OF k] cl']
  obtain r where res: "kahn_result h ?N r"
    and g: "getEvaluationOrder h c = (if length r \<noteq> length ?N then Inl CycleDetected else Inr r)"
    by blast
  have eq: "set r = set ?N" by (rule kahn_result_complete [OF ac res])
  from res have d: "distinct r" and topo: "topo_prefix h ?N r" by (simp_all add: kahn_result_def)
  from eq d keyed_inj(2) [OF k] have len: "length r = length ?N"
    by (metis distinct_card)
  have "\<forall>i < length r. \<forall>j < length r. r ! j \<in> set (outputs (h (r ! i))) \<longrightarrow> i < j"
    using topo_prefix_index [OF topo d] eq by blast
  with g len d eq show ?thesis by simp
qed

lemma order_cyclic:
  assumes k: "keyed h c" and cl: "outputs_closed h c" and cyc: "\<not> acyclic (edges h c)"
  shows "getEvaluationOrder h c = Inl CycleDetected \<and> evaluate h c = (h, Inl CycleDetected)"
proof -
  let ?N = "node_refs c"
  from cl have cl': "\<forall>u \<in> set ?N. set (outputs (h u)) \<subseteq> set ?N" by (simp add: outputs_closed_def)
  from getEvaluationOrder_result [OF keyed_inj [OF k] cl']
  obtain r where res: "kahn_result h ?N r"
    and g: "getEvaluationOrder h c = (if length r \<noteq> length ?N then Inl CycleDetected else Inr r)"
    by blast
  from kahn_result_cyclic [OF keyed_inj(2) [OF k] cyc res] g
  have "getEvaluationOrder h c = Inl CycleDetected" by simp
  then show ?thesis by (simp add: evaluate_def)
qed

lemma evaluation_order_acyclic:
  assumes "wellformed h c" and "acyclic (edges h c)"
  shows "case getEvaluationOrder h c of
           Inl e \<Rightarrow> False
         | Inr order \<Rightarrow>
             distinct order \<and> set order = set (node_refs c) \<and>
             (\<forall>i < length order. \<forall>j < length order.
                order ! j \<in> set (outputs (h (order ! i))) \<longrightarrow> i < j)"
  by (rule order_acyclic [OF wellformed_keyed [OF assms(1)] wellformed_outputs_closed [OF assms(1)] assms(2)])

lemma evaluation_order_cyclic:
  assumes "wellformed h c" and "\<not> acyclic (edges h c)"
  shows "getEvaluationOrder h c = Inl CycleDetected \<and> evaluate h c = (h, Inl CycleDetected)"
  by (rule order_cyclic [OF wellformed_keyed [OF assms(1)] wellformed_outputs_closed [OF assms(1)] assms(2)])

section \<open>Two small circuits\<close>

definition blank_node :: CircuitNode where
  "blank_node = \<lparr>id_n = [], type = INPUT, inputs = [], outputs = [], value_n = False,
     x_n = 0, y_n = 0, label = []\<rparr>"

definition node :: "string \<Rightarrow> NodeType \<Rightarrow> ref list \<Rightarrow> ref list \<Rightarrow> CircuitNode" where
  "node i t ins outs = \<lparr>id_n = i, type = t, inputs = ins, outputs = outs, value_n = False,
     x_n = 0, y_n = 0, label = type_name t\<rparr>"

definition and_heap :: heap where
  "and_heap = (\<lambda>r. blank_node)
     (0 := node ''a'' INPUT [] [2], 1 := node ''b'' INPUT [] [2],
      2 := node ''g'' AND [0, 1] [3], 3 := node ''o'' OUTPUT [2] [])"

definition and_circuit :: Circuit where
  "and_circuit = \<lparr>nodes = [(''a'', 0), (''b'', 1), (''g'', 2), (''o'', 3)]\<rparr>"

lemma acyclic_rank:
  fixes f :: "'a \<Rightarrow> nat"
  assumes "\<And>a b. (a, b) \<in> r \<Longrightarrow> f a < f b"
  shows "acyclic r"
proof -
  have "(a, b) \<in> r\<^sup>+ \<Longrightarrow> f a < f b" for a b
    by (induction rule: trancl_induct) (auto dest: assms)
  then show ?thesis by (fastforce simp: acyclic_def)
qed

lemma and_wellformed: "wellformed and_heap and_circuit"
  by (simp add: wellformed_def and_heap_def and_circuit_def node_refs_def node_def)

lemma and_acyclic: "acyclic (edges and_heap and_circuit)"
  by (rule acyclic_rank [where f = "\<lambda>r. r"])
    (auto simp: edges_def and_heap_def and_circuit_def node_refs_def node_def)

definition wide_heap :: heap where
  "wide_heap = (\<lambda>r. node (replicate (Suc r) CHR ''i'') INPUT [] [])"

definition wide_circuit :: Circuit where
  "wide_circuit = \<lparr>nodes = map (\<lambda>r. (replicate (Suc r) CHR ''i'', r)) [0..<31]\<rparr>"

lemma wide_refs: "node_refs wide_circuit = [0..<31]"
  by (simp add: node_refs_def wide_circuit_def comp_def)

lemma wide_wellformed: "wellformed wide_heap wide_circuit"
proof -
  have "inj (\<lambda>r. replicate (Suc r) CHR ''i'')"
    by (rule injI) (metis length_replicate nat.inject)
  then have "distinct (map fst (nodes wide_circuit))"
    by (simp add: wide_circuit_def comp_def distinct_map inj_on_def)
  then show ?thesis
    unfolding wellformed_def wide_refs
    by (simp add: wide_heap_def node_def) (auto simp: wide_circuit_def)
qed

lemma wide_acyclic: "acyclic (edges wide_heap wide_circuit)"
  by (rule acyclic_rank [where f = "\<lambda>r. r"]) (simp add: edges_def wide_heap_def node_def)

lemma wide_inputs: "getNodesByType wide_heap wide_circuit INPUT = [0..<31]"
  by (simp add: getNodesByType_def wide_heap_def wide_circuit_def node_def comp_def)

lemma wide_table: "getTruthTable wide_heap wide_circuit = []"
  by (simp add: getTruthTable_def table_run_def wide_inputs js_shl_31 Let_def)

lemma and_inputs: "getNodesByType and_heap and_circuit INPUT = [0, 1]"
  by (simp add: getNodesByType_def and_heap_def and_circuit_def node_def)


section \<open>Evaluation in topological order\<close>

definition same_structure :: "heap \<Rightarrow> heap \<Rightarrow> bool" where
  "same_structure h h' \<longleftrightarrow> (\<forall>r. h' r = (h r)\<lparr>value_n := value_n (h' r)\<rparr>)"

lemma same_structure_refl: "same_structure h h"
  by (simp add: same_structure_def)

lemma same_structure_trans:
  "same_structure h h' \<Longrightarrow> same_structure h' h'' \<Longrightarrow> same_structure h h''"
  unfolding same_structure_def
proof
  fix r
  assume a: "\<forall>r. h' r = (h r)\<lparr>value_n := value_n (h' r)\<rparr>"
    and b: "\<forall>r. h'' r = (h' r)\<lparr>value_n := value_n (h'' r)\<rparr>"
  from b have "h'' r = (h' r)\<lparr>value_n := value_n (h'' r)\<rparr>" ..
  also from a have "h' r = (h r)\<lparr>value_n := value_n (h' r)\<rparr>" ..
  finally show "h'' r = (h r)\<lparr>value_n := value_n (h'' r)\<rparr>" by simp
qed

lemma same_structure_fields:
  assumes "same_structure h h'"
  shows "id_n (h' r) = id_n (h r)" "type (h' r) = type (h r)" "inputs (h' r) = inputs (h r)"
    "outputs (h' r) = outputs (h r)" "label (h' r) = label (h r)"
proof -
  from assms have e: "h' r = (h r)\<lparr>value_n := value_n (h' r)\<rparr>" by (simp add: same_structure_def)
  show "id_n (h' r) = id_n (h r)" by (subst e) simp
  show "type (h' r) = type (h r)" by (subst e) simp
  show "inputs (h' r) = inputs (h r)" by (subst e) simp
  show "outputs (h' r) = outputs (h r)" by (subst e) simp
  show "label (h' r) = label (h r)" by (subst e) simp
qed

lemma same_structure_setValue: "same_structure h (setValue h r v)"
  by (simp add: same_structure_def setValue_def)

lemma same_structure_eval_node: "same_structure h (eval_node r h)"
  by (simp add: same_structure_def eval_node_def)

lemma same_structure_wellformed:
  "same_structure h h' \<Longrightarrow> wellformed h' c = wellformed h c"
  by (simp add: wellformed_def same_structure_fields)

lemma same_structure_keyed:
  "same_structure h h' \<Longrightarrow> keyed h' c = keyed h c"
  by (simp add: keyed_def same_structure_fields)

lemma same_structure_outputs_closed:
  "same_structure h h' \<Longrightarrow> outputs_closed h' c = outputs_closed h c"
  by (simp add: outputs_closed_def same_structure_fields)

lemma same_structure_edges:
  "same_structure h h' \<Longrightarrow> edges h' c = edges h c"
  by (simp add: edges_def same_structure_fields)

lemma same_structure_getNodesByType:
  "same_structure h h' \<Longrightarrow> getNodesByType h' c t = getNodesByType h c t"
  by (simp add: getNodesByType_def same_structure_fields)

text \<open>compute reads the kind and the input list of the node and the values of its inputs.\<close>

lemma compute_cong:
  assumes "type (h' r) = type (h r)" "inputs (h' r) = inputs (h r)"
    and "\<forall>a \<in> set (inputs (h r)). value_n (h' a) = value_n (h a)"
    and "type (h r) = INPUT \<longrightarrow> value_n (h' r) = value_n (h r)"
  shows "compute h' r = compute h r"
proof -
  have m: "map (\<lambda>a. value_n (h' a)) (inputs (h r)) = map (\<lambda>a. value_n (h a)) (inputs (h r))"
    using assms(3) by simp
  have 1: "list_all (\<lambda>a. value_n (h' a)) (inputs (h r)) = list_all (\<lambda>a. value_n (h a)) (inputs (h r))"
    using assms(3) by (simp add: list_all_iff)
  have 2: "list_ex (\<lambda>a. value_n (h' a)) (inputs (h r)) = list_ex (\<lambda>a. value_n (h a)) (inputs (h r))"
    using assms(3) by (simp add: list_ex_iff)
  have 3: "filter (\<lambda>a. value_n (h' a)) (inputs (h r)) = filter (\<lambda>a. value_n (h a)) (inputs (h r))"
    using assms(3) by (intro filter_cong) simp_all
  have 4: "inputs (h r) \<noteq> [] \<Longrightarrow> value_n (h' (inputs (h r) ! 0)) = value_n (h (inputs (h r) ! 0))"
    using assms(3) by (cases "inputs (h r)") simp_all
  show ?thesis
    using assms(1,2,4) 1 2 3 4
    by (cases "type (h r)")
      (simp_all add: compute_def InputNode_compute_def OutputNode_compute_def AndGate_compute_def
        OrGate_compute_def NotGate_compute_def XorGate_compute_def)
qed

definition inputs_before :: "heap \<Rightarrow> ref list \<Rightarrow> bool" where
  "inputs_before h order \<longleftrightarrow>
     (\<forall>i < length order. set (inputs (h (order ! i))) \<subseteq> set (take i order))"

definition settled :: "heap \<Rightarrow> ref list \<Rightarrow> bool" where
  "settled h vs \<longleftrightarrow> (\<forall>v \<in> set vs. type (h v) \<noteq> INPUT \<longrightarrow> value_n (h v) = compute h v)"

lemma inputs_before_butlast:
  "inputs_before h (order @ [x]) \<Longrightarrow> inputs_before h order"
  unfolding inputs_before_def
proof (intro allI impI)
  fix i assume a: "\<forall>i < length (order @ [x]). set (inputs (h ((order @ [x]) ! i))) \<subseteq> set (take i (order @ [x]))"
    and i: "i < length order"
  from a i have "set (inputs (h ((order @ [x]) ! i))) \<subseteq> set (take i (order @ [x]))" by simp
  with i show "set (inputs (h (order ! i))) \<subseteq> set (take i order)" by (simp add: nth_append)
qed

lemma fold_eval_node:
  "distinct order \<Longrightarrow> inputs_before h order \<Longrightarrow>
     same_structure h (fold eval_node order h) \<and>
     settled (fold eval_node order h) order \<and>
     (\<forall>v. type (h v) = INPUT \<or> v \<notin> set order \<longrightarrow> fold eval_node order h v = h v)"
proof (induction order rule: rev_induct)
  case Nil
  then show ?case by (simp add: same_structure_refl settled_def)
next
  case (snoc x order)
  let ?h1 = "fold eval_node order h"
  let ?hf = "eval_node x ?h1"
  from snoc.prems have d: "distinct order" and x: "x \<notin> set order" by simp_all
  from snoc.prems(2) have ib: "inputs_before h order" by (rule inputs_before_butlast)
  from snoc.IH [OF d ib] have ss: "same_structure h ?h1" and st: "settled ?h1 order"
    and keep: "\<forall>v. type (h v) = INPUT \<or> v \<notin> set order \<longrightarrow> ?h1 v = h v"
    by simp_all
  have f: "fold eval_node (order @ [x]) h = ?hf" by simp
  from snoc.prems(2) have xin: "set (inputs (h x)) \<subseteq> set order"
    unfolding inputs_before_def by (auto dest!: spec [of _ "length order"])
  have other: "v \<noteq> x \<Longrightarrow> ?hf v = ?h1 v" for v by (simp add: eval_node_def)
  have ss': "same_structure h ?hf"
    by (rule same_structure_trans [OF ss same_structure_eval_node])
  have cmp: "compute ?hf v = compute ?h1 v" if "set (inputs (h v)) \<subseteq> set order" for v
  proof (rule compute_cong)
    show "type (?hf v) = type (?h1 v)" "inputs (?hf v) = inputs (?h1 v)"
      by (simp_all add: same_structure_fields [OF same_structure_eval_node])
    show "\<forall>a \<in> set (inputs (?h1 v)). value_n (?hf a) = value_n (?h1 a)"
    proof
      fix a assume "a \<in> set (inputs (?h1 v))"
      with that have "a \<in> set order" by (auto simp: same_structure_fields [OF ss])
      with x have "a \<noteq> x" by auto
      then show "value_n (?hf a) = value_n (?h1 a)" by (simp add: other)
    qed
    show "type (?h1 v) = INPUT \<longrightarrow> value_n (?hf v) = value_n (?h1 v)"
      by (simp add: eval_node_def)
  qed
  have st': "settled ?hf (order @ [x])"
    unfolding settled_def
  proof (intro ballI impI)
    fix v assume v: "v \<in> set (order @ [x])" and t: "type (?hf v) \<noteq> INPUT"
    show "value_n (?hf v) = compute ?hf v"
    proof (cases "v = x")
      case True
      from t True have "type (?h1 x) \<noteq> INPUT"
        by (simp add: same_structure_fields [OF same_structure_eval_node])
      then have "value_n (?hf x) = compute ?h1 x" by (simp add: eval_node_def)
      with cmp [OF xin] True show ?thesis by simp
    next
      case False
      with v have vo: "v \<in> set order" by simp
      then obtain i where i: "i < length order" "order ! i = v" by (auto simp: in_set_conv_nth)
      with ib have "set (inputs (h v)) \<subseteq> set (take i order)" by (auto simp: inputs_before_def)
      then have vin: "set (inputs (h v)) \<subseteq> set order" by (auto dest: in_set_takeD)
      from t False have "type (?h1 v) \<noteq> INPUT" by (simp add: other)
      with st vo have "value_n (?h1 v) = compute ?h1 v" by (simp add: settled_def)
      with cmp [OF vin] False show ?thesis by (simp add: other)
    qed
  qed
  have keep': "\<forall>v. type (h v) = INPUT \<or> v \<notin> set (order @ [x]) \<longrightarrow> ?hf v = h v"
  proof (intro allI impI)
    fix v assume a: "type (h v) = INPUT \<or> v \<notin> set (order @ [x])"
    show "?hf v = h v"
    proof (cases "v = x")
      case True
      with a have "type (h x) = INPUT" by simp
      then have "type (?h1 x) = INPUT" by (simp add: same_structure_fields [OF ss])
      then have "?hf = ?h1" by (simp add: eval_node_def)
      moreover from keep \<open>type (h x) = INPUT\<close> have "?h1 x = h x" by blast
      ultimately show ?thesis using True by simp
    next
      case False
      with a have "type (h v) = INPUT \<or> v \<notin> set order" by simp
      with keep have "?h1 v = h v" by blast
      with other [OF False] show ?thesis by simp
    qed
  qed
  from ss' st' keep' show ?case unfolding f by blast
qed


lemma wellformed_inputs_before:
  assumes wf: "wellformed h c" and d: "distinct order" and eq: "set order = set (node_refs c)"
    and topo: "\<forall>i < length order. \<forall>j < length order.
                order ! j \<in> set (outputs (h (order ! i))) \<longrightarrow> i < j"
  shows "inputs_before h order"
  unfolding inputs_before_def
proof (intro allI impI subsetI)
  fix i a assume i: "i < length order" and a: "a \<in> set (inputs (h (order ! i)))"
  from i eq have vi: "order ! i \<in> set (node_refs c)" by (metis nth_mem)
  with wf a have aN: "a \<in> set (node_refs c)" by (auto simp: wellformed_def)
  with wf vi a have "order ! i \<in> set (outputs (h a))" by (auto simp: wellformed_def)
  moreover from aN eq have "a \<in> set order" by simp
  then obtain k where k: "k < length order" "order ! k = a"
    by (auto simp: in_set_conv_nth)
  ultimately have "k < i" using topo i by blast
  with k i have "k < length (take i order)" "take i order ! k = a" by simp_all
  then show "a \<in> set (take i order)" by (metis nth_mem)
qed

lemma evaluate_acyclic:
  assumes wf: "wellformed h c" and ac: "acyclic (edges h c)"
  shows "\<exists>h'. evaluate h c = (h', Inr ()) \<and> same_structure h h' \<and>
           settled h' (node_refs c) \<and>
           (\<forall>v. type (h v) = INPUT \<or> v \<notin> set (node_refs c) \<longrightarrow> h' v = h v)"
proof -
  from evaluation_order_acyclic [OF wf ac]
  obtain order where g: "getEvaluationOrder h c = Inr order"
    and d: "distinct order" and eq: "set order = set (node_refs c)"
    and topo: "\<forall>i < length order. \<forall>j < length order.
                order ! j \<in> set (outputs (h (order ! i))) \<longrightarrow> i < j"
    by (auto split: sum.splits)
  have ib: "inputs_before h order" by (rule wellformed_inputs_before [OF wf d eq topo])
  from fold_eval_node [OF d ib] g eq show ?thesis
    by (simp add: evaluate_def settled_def)
qed

lemma evaluate_cyclic:
  assumes "wellformed h c" and "\<not> acyclic (edges h c)"
  shows "evaluate h c = (h, Inl CycleDetected)"
  using evaluation_order_cyclic [OF assms] by simp

section \<open>The truth table loop\<close>

lemma set_inputs_snoc:
  "set_inputs h (ins @ [x]) i =
     setValue (set_inputs h ins i) x (js_and (js_sar i (length ins)) 1 \<noteq> 0)"
  by (simp add: set_inputs_def)

lemma set_inputs_props:
  "distinct ins \<Longrightarrow>
     same_structure h (set_inputs h ins i) \<and>
     (\<forall>k < length ins. value_n (set_inputs h ins i (ins ! k)) = bit i (k mod 32)) \<and>
     (\<forall>v. v \<notin> set ins \<longrightarrow> set_inputs h ins i v = h v)"
proof (induction ins rule: rev_induct)
  case Nil
  then show ?case by (simp add: set_inputs_def same_structure_refl)
next
  case (snoc x ins)
  let ?h1 = "set_inputs h ins i"
  from snoc.prems have d: "distinct ins" and x: "x \<notin> set ins" by simp_all
  from snoc.IH [OF d] have ss: "same_structure h ?h1"
    and vals: "\<forall>k < length ins. value_n (?h1 (ins ! k)) = bit i (k mod 32)"
    and keep: "\<forall>v. v \<notin> set ins \<longrightarrow> ?h1 v = h v" by simp_all
  have 1: "same_structure h (set_inputs h (ins @ [x]) i)"
    unfolding set_inputs_snoc by (rule same_structure_trans [OF ss same_structure_setValue])
  have 2: "\<forall>k < length (ins @ [x]). value_n (set_inputs h (ins @ [x]) i ((ins @ [x]) ! k)) = bit i (k mod 32)"
  proof (intro allI impI)
    fix k assume k: "k < length (ins @ [x])"
    show "value_n (set_inputs h (ins @ [x]) i ((ins @ [x]) ! k)) = bit i (k mod 32)"
    proof (cases "k < length ins")
      case True
      then have "ins ! k \<noteq> x" using x by (metis nth_mem)
      with True vals show ?thesis by (simp add: set_inputs_snoc setValue_def nth_append)
    next
      case False
      with k have "k = length ins" by simp
      then show ?thesis by (simp add: set_inputs_snoc setValue_def js_bit)
    qed
  qed
  have 3: "\<forall>v. v \<notin> set (ins @ [x]) \<longrightarrow> set_inputs h (ins @ [x]) i v = h v"
    using keep by (simp add: set_inputs_snoc setValue_def)
  from 1 2 3 show ?case by blast
qed

lemma map_of_js_put:
  "map_of r k = None \<Longrightarrow> map_of (js_put k v r) = (map_of r)(k \<mapsto> v)"
proof (induction r)
  case Nil
  show ?case by simp
next
  case (Cons p r)
  from Cons.prems have ne: "fst p \<noteq> k" and r: "map_of r k = None"
    by (cases p; simp split: if_splits)+
  from Cons.IH [OF r] have "map_of (p # js_put k v r) = (map_of (p # r))(k \<mapsto> v)"
    using ne by (cases p) (auto simp: fun_upd_twist)
  then show ?case by (cases p) auto
qed

lemma map_of_js_set:
  "map_of (js_set k v r) = (if k = ''__proto__'' then map_of r else (map_of r)(k \<mapsto> v))"
  by (simp add: js_set_def map_of_js_put update_conv')

lemma fold_js_set_proto:
  "map_of (fold (\<lambda>r m. js_set (f r) (g r) m) xs m0) ''__proto__'' = map_of m0 ''__proto__''"
  by (induction xs rule: rev_induct) (simp_all add: map_of_js_set)

lemma fold_js_set_other:
  "inj_on f (set xs) \<Longrightarrow> x \<in> set xs \<Longrightarrow> f x \<noteq> ''__proto__'' \<Longrightarrow>
     map_of (fold (\<lambda>r m. js_set (f r) (g r) m) xs m0) (f x) = Some (g x)"
proof (induction xs rule: rev_induct)
  case Nil
  then show ?case by simp
next
  case (snoc y xs)
  show ?case
  proof (cases "x = y")
    case True
    with snoc.prems(3) show ?thesis by (simp add: map_of_js_set)
  next
    case False
    with snoc.prems have xs: "x \<in> set xs" and "f x \<noteq> f y" by (auto simp: inj_on_def)
    moreover from snoc.prems have "inj_on f (set xs)" by (simp add: inj_on_def)
    ultimately show ?thesis using snoc.IH snoc.prems(3) by (simp add: map_of_js_set)
  qed
qed

lemma map_of_fold_js_set:
  "inj_on f (set xs) \<Longrightarrow> x \<in> set xs \<Longrightarrow>
     map_of (fold (\<lambda>r m. js_set (f r) (g r) m) xs m0) (f x) =
       (if f x = ''__proto__'' then map_of m0 (f x) else Some (g x))"
  by (simp add: fold_js_set_proto fold_js_set_other)

lemma getNodesByType_props:
  assumes "wellformed h c"
  shows "distinct (getNodesByType h c t)"
    and "set (getNodesByType h c t) \<subseteq> set (node_refs c)"
    and "\<forall>v \<in> set (getNodesByType h c t). type (h v) = t"
    and "inj_on (\<lambda>r. id_n (h r)) (set (getNodesByType h c t))"
proof -
  show "distinct (getNodesByType h c t)"
    using wellformed_inj(2) [OF assms] by (simp add: getNodesByType_def node_refs_def)
  show sub: "set (getNodesByType h c t) \<subseteq> set (node_refs c)"
    by (auto simp: getNodesByType_def node_refs_def)
  show "\<forall>v \<in> set (getNodesByType h c t). type (h v) = t"
    by (simp add: getNodesByType_def)
  show "inj_on (\<lambda>r. id_n (h r)) (set (getNodesByType h c t))"
    by (rule inj_on_subset [OF wellformed_inj(1) [OF assms] sub])
qed

text \<open>
  The state in which a row is recorded: the structure of the circuit is that of the heap
  the table started from, every gate holds the value computed from its inputs, and the
  k-th INPUT node (in the order of the node map) holds bit k of the assignment integer.
\<close>

definition assigned :: "heap \<Rightarrow> Circuit \<Rightarrow> int \<Rightarrow> heap \<Rightarrow> bool" where
  "assigned h c i h' \<longleftrightarrow>
     same_structure h h' \<and> settled h' (node_refs c) \<and>
     (\<forall>k < length (getNodesByType h c INPUT).
        value_n (h' (getNodesByType h c INPUT ! k)) = bit i (k mod 32))"

lemma assigned_same_structure:
  "same_structure h0 h \<Longrightarrow> assigned h c i h' \<Longrightarrow> assigned h0 c i h'"
  unfolding assigned_def
  by (auto intro: same_structure_trans simp: same_structure_getNodesByType)

lemma table_step:
  assumes wf: "wellformed h c" and ac: "acyclic (edges h c)"
  shows "\<exists>h'. evaluate (set_inputs h (getNodesByType h c INPUT) i) c = (h', Inr ()) \<and>
           assigned h c i h'"
proof -
  let ?ins = "getNodesByType h c INPUT"
  let ?h1 = "set_inputs h ?ins i"
  from set_inputs_props [OF getNodesByType_props(1) [OF wf, where t = INPUT], where h = h and i = i]
  have ss1: "same_structure h ?h1"
    and vals: "\<forall>k < length ?ins. value_n (?h1 (?ins ! k)) = bit i (k mod 32)"
    by simp_all
  have wf1: "wellformed ?h1 c" using wf by (simp add: same_structure_wellformed [OF ss1])
  have ac1: "acyclic (edges ?h1 c)" using ac by (simp add: same_structure_edges [OF ss1])
  from evaluate_acyclic [OF wf1 ac1]
  obtain h' where ev: "evaluate ?h1 c = (h', Inr ())" and ss2: "same_structure ?h1 h'"
    and st: "settled h' (node_refs c)"
    and keep: "\<forall>v. type (?h1 v) = INPUT \<or> v \<notin> set (node_refs c) \<longrightarrow> h' v = ?h1 v"
    by blast
  have "\<forall>k < length ?ins. value_n (h' (?ins ! k)) = bit i (k mod 32)"
  proof (intro allI impI)
    fix k assume k: "k < length ?ins"
    then have "?ins ! k \<in> set ?ins" by simp
    with getNodesByType_props(3) [OF wf, where t = INPUT] have "type (h (?ins ! k)) = INPUT" by blast
    then have "type (?h1 (?ins ! k)) = INPUT" by (simp add: same_structure_fields [OF ss1])
    with keep have "h' (?ins ! k) = ?h1 (?ins ! k)" by blast
    with vals k show "value_n (h' (?ins ! k)) = bit i (k mod 32)" by simp
  qed
  with same_structure_trans [OF ss1 ss2] st have "assigned h c i h'"
    by (simp add: assigned_def)
  with ev show ?thesis by blast
qed

lemma table_loop_acyclic:
  "wellformed h c \<Longrightarrow> acyclic (edges h c) \<Longrightarrow> ins = getNodesByType h c INPUT \<Longrightarrow>
   \<exists>h' rows. table_loop c ins outs is h results = (h', Inr (results @ rows)) \<and>
      length rows = length is \<and>
      (\<forall>j < length is. \<exists>hj. assigned h c (is ! j) hj \<and> rows ! j = make_row hj ins outs)"
proof (induction "is" arbitrary: h results)
  case Nil
  then show ?case by simp
next
  case (Cons i "is")
  from table_step [OF Cons.prems(1,2), of i] Cons.prems(3)
  obtain h2 where ev: "evaluate (set_inputs h ins i) c = (h2, Inr ())"
    and as: "assigned h c i h2" by blast
  from as have ss: "same_structure h h2" by (simp add: assigned_def)
  have wf2: "wellformed h2 c" using Cons.prems(1) by (simp add: same_structure_wellformed [OF ss])
  have ac2: "acyclic (edges h2 c)" using Cons.prems(2) by (simp add: same_structure_edges [OF ss])
  have ins2: "ins = getNodesByType h2 c INPUT"
    using Cons.prems(3) by (simp add: same_structure_getNodesByType [OF ss])
  from Cons.IH [OF wf2 ac2 ins2, of "results @ [make_row h2 ins outs]"]
  obtain h' rows where tl: "table_loop c ins outs is h2 (results @ [make_row h2 ins outs])
        = (h', Inr ((results @ [make_row h2 ins outs]) @ rows))"
    and len: "length rows = length is"
    and rows: "\<forall>j < length is. \<exists>hj. assigned h2 c (is ! j) hj \<and> rows ! j = make_row hj ins outs"
    by blast
  let ?rows = "make_row h2 ins outs # rows"
  have 1: "table_loop c ins outs (i # is) h results = (h', Inr (results @ ?rows))"
    using ev tl by simp
  have 2: "length ?rows = length (i # is)" using len by simp
  have 3: "\<forall>j < length (i # is). \<exists>hj. assigned h c ((i # is) ! j) hj \<and> ?rows ! j = make_row hj ins outs"
  proof (intro allI impI)
    fix j assume j: "j < length (i # is)"
    show "\<exists>hj. assigned h c ((i # is) ! j) hj \<and> ?rows ! j = make_row hj ins outs"
    proof (cases j)
      case 0
      with as show ?thesis by auto
    next
      case (Suc j')
      with j rows obtain hj where "assigned h2 c (is ! j') hj" "rows ! j' = make_row hj ins outs"
        by auto
      with Suc assigned_same_structure [OF ss] show ?thesis by auto
    qed
  qed
  from 1 2 3 show ?case by blast
qed

lemma keyed_inputs_distinct: "keyed h c \<Longrightarrow> distinct (getNodesByType h c t)"
  using keyed_inj(2) [of h c] by (simp add: getNodesByType_def node_refs_def)

lemma table_loop_cyclic:
  assumes "keyed h c" and "outputs_closed h c" and "\<not> acyclic (edges h c)"
    and "ins = getNodesByType h c INPUT"
  shows "snd (table_loop c ins outs is h []) = Inl CycleDetected \<or>
         snd (table_loop c ins outs is h []) = Inr []"
proof (cases "is")
  case Nil
  then show ?thesis by simp
next
  case (Cons i is')
  let ?h1 = "set_inputs h ins i"
  from set_inputs_props [OF keyed_inputs_distinct [OF assms(1), where t = INPUT], where h = h and i = i] assms(4)
  have ss1: "same_structure h ?h1" by simp
  have k1: "keyed ?h1 c" using assms(1) by (simp add: same_structure_keyed [OF ss1])
  have cl1: "outputs_closed ?h1 c" using assms(2) by (simp add: same_structure_outputs_closed [OF ss1])
  have ac1: "\<not> acyclic (edges ?h1 c)" using assms(3) by (simp add: same_structure_edges [OF ss1])
  from order_cyclic [OF k1 cl1 ac1] Cons show ?thesis by simp
qed

lemma make_row_input:
  assumes "inj_on (\<lambda>r. id_n (h r)) (set ins)" "k < length ins"
  shows "map_of (inputs_row (make_row h ins outs)) (id_n (h (ins ! k))) =
     (if id_n (h (ins ! k)) = ''__proto__'' then None else Some (value_n (h (ins ! k))))"
  using map_of_fold_js_set [OF assms(1), of "ins ! k" "\<lambda>r. value_n (h r)" "[]"] assms(2)
  by (simp add: make_row_def)

lemma make_row_output:
  assumes "inj_on (\<lambda>r. id_n (h r)) (set outs)" "k < length outs"
  shows "map_of (outputs_row (make_row h ins outs)) (id_n (h (outs ! k))) =
     (if id_n (h (outs ! k)) = ''__proto__'' then None else Some (value_n (h (outs ! k))))"
  using map_of_fold_js_set [OF assms(1), of "outs ! k" "\<lambda>r. value_n (h r)" "[]"] assms(2)
  by (simp add: make_row_def)

lemma truth_table_acyclic:
  assumes wf: "wellformed h c" and ac: "acyclic (edges h c)"
    and n: "length (getNodesByType h c INPUT) < 31"
  shows "length (getTruthTable h c) = 2 ^ length (getNodesByType h c INPUT) \<and>
     (\<forall>i < 2 ^ length (getNodesByType h c INPUT). \<exists>hi. assigned h c (int i) hi \<and>
        getTruthTable h c ! i = make_row hi (getNodesByType h c INPUT) (getNodesByType h c OUTPUT))"
proof -
  let ?ins = "getNodesByType h c INPUT" and ?outs = "getNodesByType h c OUTPUT"
  let ?is = "map int [0..<2 ^ length ?ins]"
  have p: "nat (js_shl 1 (length ?ins)) = 2 ^ length ?ins"
    by (simp add: js_shl_one [OF n] nat_power_eq)
  from table_loop_acyclic [OF wf ac refl, of ?outs ?is "[]"]
  obtain h' rows where tl: "table_loop c ?ins ?outs ?is h [] = (h', Inr rows)"
    and len: "length rows = 2 ^ length ?ins"
    and rows: "\<forall>j < length ?is. \<exists>hj. assigned h c (?is ! j) hj \<and> rows ! j = make_row hj ?ins ?outs"
    by auto
  have g: "getTruthTable h c = rows"
    using tl by (simp add: getTruthTable_def table_run_def Let_def p)
  from rows have "\<forall>i < 2 ^ length ?ins. \<exists>hi. assigned h c (int i) hi \<and> rows ! i = make_row hi ?ins ?outs"
    by simp
  with len show ?thesis unfolding g by blast
qed

lemma truth_table_inputs:
  assumes wf: "wellformed h c" and ac: "acyclic (edges h c)"
    and n: "length (getNodesByType h c INPUT) < 31"
  shows "length (getTruthTable h c) = 2 ^ length (getNodesByType h c INPUT) \<and>
     (\<forall>i < 2 ^ length (getNodesByType h c INPUT). \<forall>k < length (getNodesByType h c INPUT).
        map_of (inputs_row (getTruthTable h c ! i)) (id_n (h (getNodesByType h c INPUT ! k)))
          = (if id_n (h (getNodesByType h c INPUT ! k)) = ''__proto__'' then None
             else Some (bit i k)))"
proof -
  let ?ins = "getNodesByType h c INPUT" and ?outs = "getNodesByType h c OUTPUT"
  from truth_table_acyclic [OF assms]
  have len: "length (getTruthTable h c) = 2 ^ length ?ins"
    and rows: "\<forall>i < 2 ^ length ?ins. \<exists>hi. assigned h c (int i) hi \<and>
        getTruthTable h c ! i = make_row hi ?ins ?outs" by simp_all
  have "map_of (inputs_row (getTruthTable h c ! i)) (id_n (h (?ins ! k))) =
      (if id_n (h (?ins ! k)) = ''__proto__'' then None else Some (bit i k))"
    if i: "i < 2 ^ length ?ins" and k: "k < length ?ins" for i k
  proof -
    from rows i obtain hi where as: "assigned h c (int i) hi"
      and r: "getTruthTable h c ! i = make_row hi ?ins ?outs" by blast
    from as have ss: "same_structure h hi"
      and v: "value_n (hi (?ins ! k)) = bit (int i) (k mod 32)"
      using k by (simp_all add: assigned_def)
    have inj: "inj_on (\<lambda>r. id_n (hi r)) (set ?ins)"
      using getNodesByType_props(4) [OF wf, where t = INPUT]
      by (simp add: same_structure_fields [OF ss])
    from k n have "k mod 32 = k" by simp
    with make_row_input [OF inj k, of ?outs] v show ?thesis
      unfolding r by (simp add: same_structure_fields [OF ss] bit_of_nat_iff_bit)
  qed
  with len show ?thesis by blast
qed

lemma table_cyclic:
  assumes "keyed h c" and "outputs_closed h c" and "\<not> acyclic (edges h c)"
  shows "getTruthTable h c = []"
  using table_loop_cyclic [OF assms refl, of "getNodesByType h c OUTPUT"
      "map int [0..<nat (js_shl 1 (length (getNodesByType h c INPUT)))]"]
  by (auto simp: getTruthTable_def table_run_def Let_def)

lemma truth_table_cyclic:
  assumes "wellformed h c" and "\<not> acyclic (edges h c)"
  shows "getTruthTable h c = []"
  by (rule table_cyclic [OF wellformed_keyed [OF assms(1)] wellformed_outputs_closed [OF assms(1)] assms(2)])

section \<open>Truth tables\<close>

text \<open>
  C2. The claim gives the most significant bit of the row number to the first INPUT
  node, as the synthesis engine and the synthesis dialog read a row number
  (\<open>i >> (count - 1 - j)\<close>). \<open>getTruthTable\<close> writes \<open>(i >> idx) & 1\<close>: in the
  circuit of two INPUT nodes \<open>a\<close> and \<open>b\<close> that feed an AND gate, the table has four
  rows and row 1, the binary number 01, records true for the first INPUT node \<open>a\<close> and
  false for the second INPUT node \<open>b\<close>, where the claim has false for \<open>a\<close> and true
  for \<open>b\<close>.
\<close>

theorem truth_table_low_bit_first:
  "getNodesByType and_heap and_circuit INPUT = [0, 1] \<and>
   id_n (and_heap 0) = ''a'' \<and> id_n (and_heap 1) = ''b'' \<and>
   length (getTruthTable and_heap and_circuit) = 4 \<and>
   map_of (inputs_row (getTruthTable and_heap and_circuit ! 1)) ''a'' = Some True \<and>
   map_of (inputs_row (getTruthTable and_heap and_circuit ! 1)) ''b'' = Some False"
proof -
  have n: "length (getNodesByType and_heap and_circuit INPUT) < 31" by (simp add: and_inputs)
  have ids: "id_n (and_heap 0) = ''a''" "id_n (and_heap 1) = ''b''"
    by (simp_all add: and_heap_def node_def)
  from truth_table_inputs [OF and_wellformed and_acyclic n]
  have len: "length (getTruthTable and_heap and_circuit) = 4"
    and rows: "\<forall>i < 4. \<forall>k < 2.
        map_of (inputs_row (getTruthTable and_heap and_circuit ! i)) (id_n (and_heap ([0, 1] ! k)))
          = (if id_n (and_heap ([0, 1] ! k)) = ''__proto__'' then None else Some (bit i k))"
    by (simp_all add: and_inputs)
  note r = rows [rule_format]
  have a: "map_of (inputs_row (getTruthTable and_heap and_circuit ! 1)) ''a'' = Some True"
    using r [of 1 0] ids by (simp add: bit_0)
  have b: "map_of (inputs_row (getTruthTable and_heap and_circuit ! 1)) ''b'' = Some False"
    using r [of 1 1] ids by (simp add: bit_0 bit_Suc)
  from a b len ids show ?thesis by (simp add: and_inputs)
qed

section \<open>Mutation keeps the edge lists symmetric\<close>

text \<open>
  An edge from A to B is recorded twice: A stands in \<open>B.inputs\<close> and B stands in
  \<open>A.outputs\<close>. \<open>edge_inv\<close> says that the two records agree on every pair of objects
  and that no list holds an object twice. \<open>built\<close> is the set of stores and circuits
  that the constructors and the five public mutation operations produce, starting from
  nothing; an operation on a node object needs the object to exist.
\<close>

definition edge_inv :: "heap \<Rightarrow> bool" where
  "edge_inv h \<longleftrightarrow>
     (\<forall>a b. a \<in> set (inputs (h b)) \<longleftrightarrow> b \<in> set (outputs (h a))) \<and>
     (\<forall>a. distinct (inputs (h a)) \<and> distinct (outputs (h a)))"

definition severed :: "heap \<Rightarrow> ref \<Rightarrow> bool" where
  "severed h r \<longleftrightarrow>
     inputs (h r) = [] \<and> outputs (h r) = [] \<and>
     (\<forall>a. r \<notin> set (inputs (h a)) \<and> r \<notin> set (outputs (h a)))"

definition empty_world :: world where
  "empty_world = \<lparr>heap = (\<lambda>r. blank_node), next_ref = 0\<rparr>"

inductive built :: "world \<Rightarrow> Circuit \<Rightarrow> bool" where
  start: "built empty_world \<lparr>nodes = []\<rparr>"
| new: "built w c \<Longrightarrow> built (fst (new_CircuitNode w i t x y l)) c"
| addInput: "built w c \<Longrightarrow> t < next_ref w \<Longrightarrow> s < next_ref w \<Longrightarrow>
     built (w\<lparr>heap := addInput (heap w) t s\<rparr>) c"
| removeInput: "built w c \<Longrightarrow> t < next_ref w \<Longrightarrow> s < next_ref w \<Longrightarrow>
     built (w\<lparr>heap := removeInput (heap w) t s\<rparr>) c"
| addNode: "built w c \<Longrightarrow> r < next_ref w \<Longrightarrow> built w (addNode (heap w) c r)"
| removeNode: "built w c \<Longrightarrow>
     built (w\<lparr>heap := fst (removeNode (heap w) c k)\<rparr>) (snd (removeNode (heap w) c k))"
| addConnection: "built w c \<Longrightarrow> built (w\<lparr>heap := addConnection (heap w) c fromId toId\<rparr>) c"

lemma addInput_fields:
  "inputs (addInput h t s b) =
     (if b = t \<and> s \<notin> set (inputs (h t)) then inputs (h t) @ [s] else inputs (h b))"
  "outputs (addInput h t s a) =
     (if a = s \<and> s \<notin> set (inputs (h t)) then outputs (h s) @ [t] else outputs (h a))"
  "id_n (addInput h t s a) = id_n (h a)"
  "type (addInput h t s a) = type (h a)"
  "value_n (addInput h t s a) = value_n (h a)"
  "y_n (addInput h t s a) = y_n (h a)"
  by (simp_all add: addInput_def Let_def)

lemma removeInput_fields:
  "inputs (removeInput h t s b) = (if b = t then remove1 s (inputs (h t)) else inputs (h b))"
  "outputs (removeInput h t s a) =
     (if a = s \<and> s \<in> set (inputs (h t)) then remove1 t (outputs (h s)) else outputs (h a))"
  by (simp_all add: removeInput_def Let_def remove1_idem)

lemma edge_inv_addInput: "edge_inv h \<Longrightarrow> edge_inv (addInput h t s)"
  unfolding edge_inv_def addInput_fields by auto

lemma edge_inv_removeInput: "edge_inv h \<Longrightarrow> edge_inv (removeInput h t s)"
  unfolding edge_inv_def removeInput_fields by auto


lemma outputs_removeInput_inv:
  "edge_inv h \<Longrightarrow>
     outputs (removeInput h t s a) = (if a = s then remove1 t (outputs (h s)) else outputs (h a))"
  by (auto simp: removeInput_fields edge_inv_def remove1_idem)

lemma set_fold_remove1:
  "distinct l \<Longrightarrow> set (fold remove1 xs l) = set l - set xs \<and> distinct (fold remove1 xs l)"
  by (induction xs arbitrary: l) auto

lemma fold_remove1_self: "distinct xs \<Longrightarrow> fold remove1 xs xs = []"
  using set_fold_remove1 [of xs xs] by simp

lemma fold_removeInput_inputs:
  "edge_inv h \<Longrightarrow>
     edge_inv (fold (\<lambda>inp h'. removeInput h' r inp) xs h) \<and>
     inputs (fold (\<lambda>inp h'. removeInput h' r inp) xs h r) = fold remove1 xs (inputs (h r))"
  by (induction xs arbitrary: h) (simp_all add: edge_inv_removeInput removeInput_fields)

lemma fold_removeInput_outputs:
  "edge_inv h \<Longrightarrow>
     edge_inv (fold (\<lambda>out h'. removeInput h' out r) xs h) \<and>
     outputs (fold (\<lambda>out h'. removeInput h' out r) xs h r) = fold remove1 xs (outputs (h r))"
  by (induction xs arbitrary: h) (simp_all add: edge_inv_removeInput outputs_removeInput_inv)

lemma fold_removeInput_outputs_keeps_inputs:
  "inputs (h r) = [] \<Longrightarrow> inputs (fold (\<lambda>out h'. removeInput h' out r) xs h r) = []"
proof (induction xs arbitrary: h)
  case Nil
  then show ?case by simp
next
  case (Cons a xs)
  from Cons.prems have "inputs (removeInput h a r r) = []"
    by (cases "r = a") (simp_all add: removeInput_fields)
  with Cons.IH [of "removeInput h a r"] show ?case by simp
qed

lemma severedI:
  assumes "edge_inv h" "inputs (h r) = []" "outputs (h r) = []"
  shows "severed h r"
  unfolding severed_def
proof (intro conjI allI)
  fix a
  from assms(1) have "r \<in> set (inputs (h a)) \<longleftrightarrow> a \<in> set (outputs (h r))"
    and "a \<in> set (inputs (h r)) \<longleftrightarrow> r \<in> set (outputs (h a))"
    by (simp_all add: edge_inv_def)
  with assms(2,3) show "r \<notin> set (inputs (h a))" and "r \<notin> set (outputs (h a))" by simp_all
qed (use assms in simp_all)

lemma removeNode_inv:
  assumes "edge_inv h"
  shows "edge_inv (fst (removeNode h c k))"
    and "map_of (nodes c) k = Some r \<Longrightarrow> severed (fst (removeNode h c k)) r"
    and "map_of (nodes (snd (removeNode h c k))) k = None"
proof -
  show "map_of (nodes (snd (removeNode h c k))) k = None"
    by (cases "map_of (nodes c) k") (simp_all add: removeNode_def Let_def delete_conv')
  show "edge_inv (fst (removeNode h c k))"
  proof (cases "map_of (nodes c) k")
    case None
    with assms show ?thesis by (simp add: removeNode_def)
  next
    case (Some n)
    let ?h1 = "fold (\<lambda>inp h'. removeInput h' n inp) (inputs (h n)) h"
    from fold_removeInput_inputs [OF assms] have "edge_inv ?h1" by simp
    from fold_removeInput_outputs [OF this] Some show ?thesis
      by (simp add: removeNode_def Let_def)
  qed
  show "severed (fst (removeNode h c k)) r" if r: "map_of (nodes c) k = Some r"
  proof -
    let ?h1 = "fold (\<lambda>inp h'. removeInput h' r inp) (inputs (h r)) h"
    let ?h2 = "fold (\<lambda>out h'. removeInput h' out r) (outputs (?h1 r)) ?h1"
    from assms have d: "distinct (inputs (h r))" by (simp add: edge_inv_def)
    from fold_removeInput_inputs [OF assms, of r "inputs (h r)"]
    have e1: "edge_inv ?h1" and i1: "inputs (?h1 r) = []"
      by (simp_all add: fold_remove1_self [OF d])
    from e1 have d1: "distinct (outputs (?h1 r))" by (simp add: edge_inv_def)
    from fold_removeInput_outputs [OF e1, of r "outputs (?h1 r)"]
    have e2: "edge_inv ?h2" and o2: "outputs (?h2 r) = []"
      by (simp_all add: fold_remove1_self [OF d1])
    have i2: "inputs (?h2 r) = []"
      using i1 by (rule fold_removeInput_outputs_keeps_inputs [where h = ?h1 and r = r])
    have "fst (removeNode h c k) = ?h2" using r by (simp add: removeNode_def Let_def)
    with severedI [OF e2 i2 o2] show ?thesis by simp
  qed
qed


definition allocated :: "world \<Rightarrow> Circuit \<Rightarrow> bool" where
  "allocated w c \<longleftrightarrow>
     (\<forall>a. \<forall>r \<in> set (inputs (heap w a)) \<union> set (outputs (heap w a)). r < next_ref w) \<and>
     (\<forall>r \<in> set (node_refs c). r < next_ref w)"

lemma removeInput_subset:
  "set (inputs (removeInput h t s a)) \<subseteq> set (inputs (h a))"
  "set (outputs (removeInput h t s a)) \<subseteq> set (outputs (h a))"
  using set_remove1_subset [of s "inputs (h t)"] set_remove1_subset [of t "outputs (h s)"]
  by (auto simp: removeInput_fields)

lemma fold_removeInput_subset:
  "set (inputs (fold (\<lambda>x h'. removeInput h' (f x) (g x)) xs h a)) \<subseteq> set (inputs (h a)) \<and>
   set (outputs (fold (\<lambda>x h'. removeInput h' (f x) (g x)) xs h a)) \<subseteq> set (outputs (h a))"
proof (induction xs arbitrary: h)
  case Nil
  then show ?case by simp
next
  case (Cons x xs)
  from Cons [of "removeInput h (f x) (g x)"] removeInput_subset [of h "f x" "g x" a]
  show ?case by auto
qed

lemma removeNode_subset:
  "set (inputs (fst (removeNode h c k) a)) \<subseteq> set (inputs (h a))"
  "set (outputs (fst (removeNode h c k) a)) \<subseteq> set (outputs (h a))"
  "set (node_refs (snd (removeNode h c k))) \<subseteq> set (node_refs c)"
proof -
  show "set (node_refs (snd (removeNode h c k))) \<subseteq> set (node_refs c)"
    by (cases "map_of (nodes c) k")
      (auto simp: removeNode_def Let_def node_refs_def AList.delete_eq)
  show "set (inputs (fst (removeNode h c k) a)) \<subseteq> set (inputs (h a))"
  proof (cases "map_of (nodes c) k")
    case None
    then show ?thesis by (simp add: removeNode_def)
  next
    case (Some n)
    let ?h1 = "fold (\<lambda>inp h'. removeInput h' n inp) (inputs (h n)) h"
    from fold_removeInput_subset [of "\<lambda>x. x" "\<lambda>x. n" "outputs (?h1 n)" ?h1 a]
      fold_removeInput_subset [of "\<lambda>x. n" "\<lambda>x. x" "inputs (h n)" h a] Some
    show ?thesis by (auto simp: removeNode_def Let_def)
  qed
  show "set (outputs (fst (removeNode h c k) a)) \<subseteq> set (outputs (h a))"
  proof (cases "map_of (nodes c) k")
    case None
    then show ?thesis by (simp add: removeNode_def)
  next
    case (Some n)
    let ?h1 = "fold (\<lambda>inp h'. removeInput h' n inp) (inputs (h n)) h"
    from fold_removeInput_subset [of "\<lambda>x. x" "\<lambda>x. n" "outputs (?h1 n)" ?h1 a]
      fold_removeInput_subset [of "\<lambda>x. n" "\<lambda>x. x" "inputs (h n)" h a] Some
    show ?thesis by (auto simp: removeNode_def Let_def)
  qed
qed

lemma node_refs_addNode: "set (node_refs (addNode h c r)) \<subseteq> insert r (set (node_refs c))"
proof -
  have "set (map snd (AList.update k v al)) \<subseteq> insert v (set (map snd al))" for k v and al :: "(string \<times> ref) list"
    by (induction al) auto
  then show ?thesis by (simp add: node_refs_def addNode_def)
qed

lemma map_of_node_refs: "map_of (nodes c) k = Some r \<Longrightarrow> r \<in> set (node_refs c)"
  by (auto simp: node_refs_def dest: map_of_SomeD intro: rev_image_eqI)

lemma addConnection_cases:
  "addConnection h c f t = h \<or>
   (\<exists>a b. map_of (nodes c) f = Some a \<and> map_of (nodes c) t = Some b \<and>
      addConnection h c f t = addInput h b a)"
  by (auto simp: addConnection_def split: option.splits)

lemma edge_inv_new:
  assumes "edge_inv (heap w)" "allocated w c"
  shows "edge_inv (heap (fst (new_CircuitNode w i t x y l)))"
proof -
  let ?n = "next_ref w"
  from assms(2) have fresh: "?n \<notin> set (inputs (heap w a))" "?n \<notin> set (outputs (heap w a))" for a
    by (auto simp: allocated_def)
  with assms(1) have empty: "inputs (heap w ?n) = []" "outputs (heap w ?n) = []"
    unfolding edge_inv_def by (metis all_not_in_conv set_empty)+
  with assms(1) fresh show ?thesis
    unfolding edge_inv_def new_CircuitNode_def by (auto split: if_splits)
qed

lemma built_inv: "built w c \<Longrightarrow> edge_inv (heap w) \<and> allocated w c"
proof (induction rule: built.induct)
  case start
  show ?case by (simp add: empty_world_def edge_inv_def allocated_def blank_node_def node_refs_def)
next
  case (new w c i t x y l)
  then have "allocated (fst (new_CircuitNode w i t x y l)) c"
    unfolding allocated_def new_CircuitNode_def by (auto simp: less_Suc_eq)
  with new edge_inv_new [of w c] show ?case by simp
next
  case (addInput w c t s)
  then have "allocated (w\<lparr>heap := addInput (heap w) t s\<rparr>) c"
    unfolding allocated_def by (auto simp: addInput_fields split: if_splits)
  with addInput edge_inv_addInput show ?case by simp
next
  case (removeInput w c t s)
  then have "allocated (w\<lparr>heap := removeInput (heap w) t s\<rparr>) c"
    unfolding allocated_def using removeInput_subset [of "heap w" t s] by (simp add: subset_iff) blast
  with removeInput edge_inv_removeInput show ?case by simp
next
  case (addNode w c r)
  then show ?case
    unfolding allocated_def using node_refs_addNode [of "heap w" c r] by auto
next
  case (removeNode w c k)
  then have "allocated (w\<lparr>heap := fst (removeNode (heap w) c k)\<rparr>) (snd (removeNode (heap w) c k))"
    unfolding allocated_def using removeNode_subset [of "heap w" c k] by (simp add: subset_iff) blast
  with removeNode removeNode_inv(1) show ?case by simp
next
  case (addConnection w c fromId toId)
  show ?case
  proof (cases "addConnection (heap w) c fromId toId = heap w")
    case True
    with addConnection show ?thesis by simp
  next
    case False
    with addConnection_cases [of "heap w" c fromId toId]
    obtain a b where ab: "map_of (nodes c) fromId = Some a" "map_of (nodes c) toId = Some b"
      and eq: "addConnection (heap w) c fromId toId = addInput (heap w) b a" by auto
    from ab addConnection.IH have "a < next_ref w" "b < next_ref w"
      by (auto simp: allocated_def dest: map_of_node_refs)
    with addConnection.IH have "allocated (w\<lparr>heap := addInput (heap w) b a\<rparr>) c"
      unfolding allocated_def by (auto simp: addInput_fields split: if_splits)
    with addConnection.IH edge_inv_addInput show ?thesis by (simp add: eq)
  qed
qed

lemma built_edges:
  assumes "built w c"
  shows "edge_inv (heap w) \<and> edge_inv (fst (removeNode (heap w) c k)) \<and>
    (case map_of (nodes c) k of
       None \<Rightarrow> fst (removeNode (heap w) c k) = heap w
     | Some r \<Rightarrow> severed (fst (removeNode (heap w) c k)) r) \<and>
    map_of (nodes (snd (removeNode (heap w) c k))) k = None"
proof -
  from built_inv [OF assms] have e: "edge_inv (heap w)" by simp
  from removeNode_inv [OF e, of c k] e show ?thesis
    by (auto simp: removeNode_def split: option.splits)
qed


definition wired_world :: world where
  "wired_world =
     (let w1 = fst (new_CircuitNode empty_world ''a'' INPUT 0 0 []);
          w2 = fst (new_CircuitNode w1 ''b'' NOT 0 0 [])
      in w2\<lparr>heap := addConnection (heap w2) \<lparr>nodes = [(''a'', 0), (''b'', 1)]\<rparr> ''a'' ''b''\<rparr>)"

definition wired_circuit :: Circuit where
  "wired_circuit = \<lparr>nodes = [(''a'', 0), (''b'', 1)]\<rparr>"

lemma wired_built: "built wired_world wired_circuit"
proof -
  let ?w1 = "fst (new_CircuitNode empty_world ''a'' INPUT 0 0 [])"
  let ?w2 = "fst (new_CircuitNode ?w1 ''b'' NOT 0 0 [])"
  have b2: "built ?w2 \<lparr>nodes = []\<rparr>" by (intro built.new built.start)
  have n: "next_ref ?w2 = 2" by (simp add: new_CircuitNode_def empty_world_def)
  have "built ?w2 (addNode (heap ?w2) \<lparr>nodes = []\<rparr> 0)"
    by (rule built.addNode [OF b2]) (simp add: n)
  then have "built ?w2 (addNode (heap ?w2) (addNode (heap ?w2) \<lparr>nodes = []\<rparr> 0) 1)"
    by (rule built.addNode) (simp add: n)
  moreover have "addNode (heap ?w2) (addNode (heap ?w2) \<lparr>nodes = []\<rparr> 0) 1 = wired_circuit"
    by (simp add: addNode_def new_CircuitNode_def empty_world_def wired_circuit_def)
  ultimately have "built ?w2 wired_circuit" by simp
  then have "built (?w2\<lparr>heap := addConnection (heap ?w2) wired_circuit ''a'' ''b''\<rparr>) wired_circuit"
    by (rule built.addConnection)
  then show ?thesis by (simp add: wired_world_def wired_circuit_def Let_def)
qed

lemma wired_lookup: "map_of (nodes wired_circuit) ''a'' = Some 0"
  by (simp add: wired_circuit_def)

lemma wired_edge: "outputs (heap wired_world 0) = [1] \<and> inputs (heap wired_world 1) = [0]"
  by (simp add: wired_world_def Let_def addConnection_def addInput_def new_CircuitNode_def empty_world_def)


text \<open>
  C10. For every circuit built only through the public mutation operations (the
  constructors, \<open>addInput\<close>, \<open>removeInput\<close>, \<open>addConnection\<close>, \<open>addNode\<close>,
  \<open>removeNode\<close>), the edge representation is symmetric: A is in the input list of B iff
  B is in the output list of A, and no list records a node twice. Every operation keeps
  this, and \<open>removeNode\<close> of a present id leaves the removed node with empty lists and
  in no list of any node, and its id out of the node map.
\<close>

theorem edges_stay_symmetric:
  assumes "built w c"
  shows "edge_inv (heap w) \<and> edge_inv (fst (removeNode (heap w) c k)) \<and>
    (case map_of (nodes c) k of
       None \<Rightarrow> fst (removeNode (heap w) c k) = heap w
     | Some r \<Rightarrow> severed (fst (removeNode (heap w) c k)) r) \<and>
    map_of (nodes (snd (removeNode (heap w) c k))) k = None"
  using assms by (rule built_edges)

theorem edges_stay_symmetric_witness:
  "built wired_world wired_circuit \<and> outputs (heap wired_world 0) = [1] \<and>
   edge_inv (heap wired_world) \<and>
   edge_inv (fst (removeNode (heap wired_world) wired_circuit ''a'')) \<and>
   severed (fst (removeNode (heap wired_world) wired_circuit ''a'')) 0 \<and>
   map_of (nodes (snd (removeNode (heap wired_world) wired_circuit ''a''))) ''a'' = None"
  using edges_stay_symmetric [OF wired_built, of "''a''"] wired_built wired_edge
  by (simp add: wired_lookup)

section \<open>Circuits built by the public operations\<close>

text \<open>
  No operation reassigns the identifier of a node object, and \<open>addNode\<close> files a node
  under its identifier: in every circuit that the constructors and the public
  operations produce, the node map has distinct keys and every key is the identifier of
  its node. The other thing Kahn's algorithm relies on, that no node of the map has an
  output outside the map, is not kept: \<open>addInput\<close> on a node object that was never
  added to the circuit, or \<open>addNode\<close> of a second object under an identifier that is
  taken, leaves an edge that leads out of the node map. Then the in-degree map gets an
  entry for the outside node, the node is enqueued and counted in \<open>sorted\<close>, and the
  comparison of \<open>sorted.length\<close> with \<open>nodes.size\<close> no longer tells whether a
  cycle is there.
\<close>

lemma removeInput_id: "id_n (removeInput h t s a) = id_n (h a)"
  by (simp add: removeInput_def Let_def)

lemma fold_removeInput_id:
  "id_n (fold (\<lambda>x h'. removeInput h' (f x) (g x)) xs h a) = id_n (h a)"
  by (induction xs arbitrary: h) (simp_all add: removeInput_id)

lemma removeNode_id: "id_n (fst (removeNode h c k) a) = id_n (h a)"
proof (cases "map_of (nodes c) k")
  case None
  then show ?thesis by (simp add: removeNode_def)
next
  case (Some n)
  let ?h1 = "fold (\<lambda>inp h'. removeInput h' n inp) (inputs (h n)) h"
  from fold_removeInput_id [of "\<lambda>x. x" "\<lambda>x. n" "outputs (?h1 n)" ?h1 a]
    fold_removeInput_id [of "\<lambda>x. n" "\<lambda>x. x" "inputs (h n)" h a] Some
  show ?thesis by (simp add: removeNode_def Let_def)
qed

lemma addConnection_id: "id_n (addConnection h c f t a) = id_n (h a)"
  using addConnection_cases [of h c f t] by (auto simp: addInput_fields)

lemma keyed_cong:
  "(\<And>r. r \<in> set (node_refs c) \<Longrightarrow> id_n (h' r) = id_n (h r)) \<Longrightarrow> keyed h c \<Longrightarrow> keyed h' c"
  unfolding keyed_def node_refs_def by force

lemma keyed_addNode: "keyed h c \<Longrightarrow> keyed h (addNode h c r)"
proof -
  assume k: "keyed h c"
  have "set (AList.update k' v al) \<subseteq> insert (k', v) (set al)" for k' v and al :: "(string \<times> ref) list"
    by (induction al) auto
  from this [of "id_n (h r)" r "nodes c"] k show ?thesis
    unfolding keyed_def addNode_def by (auto simp: distinct_update)
qed

lemma keyed_removeNode: "keyed h c \<Longrightarrow> keyed h (snd (removeNode h c k))"
proof (cases "map_of (nodes c) k")
  case None
  then show "keyed h c \<Longrightarrow> ?thesis" by (simp add: removeNode_def)
next
  case (Some n)
  assume k: "keyed h c"
  then have "distinct (map fst (AList.delete k (nodes c)))" by (simp add: keyed_def distinct_delete)
  moreover have "set (AList.delete k (nodes c)) \<subseteq> set (nodes c)" by (auto simp: AList.delete_eq)
  ultimately show ?thesis using k Some unfolding keyed_def
    by (auto simp: removeNode_def Let_def)
qed

lemma built_keyed: "built w c \<Longrightarrow> keyed (heap w) c"
proof (induction rule: built.induct)
  case start
  show ?case by (simp add: keyed_def)
next
  case (new w c i t x y l)
  from built_inv [OF new.hyps] have "\<forall>r \<in> set (node_refs c). r < next_ref w"
    by (simp add: allocated_def)
  then have "id_n (heap (fst (new_CircuitNode w i t x y l)) r) = id_n (heap w r)"
    if "r \<in> set (node_refs c)" for r
    using that by (auto simp: new_CircuitNode_def)
  then show ?case using new.IH by (rule keyed_cong)
next
  case (addInput w c t s)
  show ?case by (rule keyed_cong [OF _ addInput.IH]) (simp add: addInput_fields)
next
  case (removeInput w c t s)
  show ?case by (rule keyed_cong [OF _ removeInput.IH]) (simp add: removeInput_id)
next
  case (addNode w c r)
  then show ?case by (simp add: keyed_addNode)
next
  case (removeNode w c k)
  have "keyed (heap w) (snd (removeNode (heap w) c k))" by (rule keyed_removeNode [OF removeNode.IH])
  then show ?case by (rule keyed_cong [rotated]) (simp add: removeNode_id)
next
  case (addConnection w c fromId toId)
  show ?case by (rule keyed_cong [OF _ addConnection.IH]) (simp add: addConnection_id)
qed

lemma built_order_acyclic:
  assumes b: "built w c" and ss: "same_structure (heap w) h"
    and cl: "outputs_closed h c" and ac: "acyclic (edges h c)"
  shows "case getEvaluationOrder h c of
           Inl e \<Rightarrow> False
         | Inr order \<Rightarrow>
             distinct order \<and> set order = set (node_refs c) \<and>
             (\<forall>i < length order. \<forall>j < length order.
                order ! j \<in> set (outputs (h (order ! i))) \<longrightarrow> i < j)"
proof -
  from built_keyed [OF b] have "keyed h c" by (simp add: same_structure_keyed [OF ss])
  then show ?thesis using cl ac by (rule order_acyclic)
qed

lemma built_order_cyclic:
  assumes b: "built w c" and ss: "same_structure (heap w) h"
    and cl: "outputs_closed h c" and cyc: "\<not> acyclic (edges h c)"
  shows "getEvaluationOrder h c = Inl CycleDetected \<and> evaluate h c = (h, Inl CycleDetected)"
proof -
  from built_keyed [OF b] have "keyed h c" by (simp add: same_structure_keyed [OF ss])
  then show ?thesis using cl cyc by (rule order_cyclic)
qed

lemma built_table_cyclic:
  assumes b: "built w c" and ss: "same_structure (heap w) h"
    and cl: "outputs_closed h c" and cyc: "\<not> acyclic (edges h c)"
  shows "getTruthTable h c = []"
proof -
  from built_keyed [OF b] have "keyed h c" by (simp add: same_structure_keyed [OF ss])
  then show ?thesis using cl cyc by (rule table_cyclic)
qed

subsection \<open>Example circuits\<close>

text \<open>
  \<open>dangling\<close>: an INPUT node \<open>a\<close> in the circuit and an OUTPUT node \<open>b\<close> that was
  never added, after \<open>b.addInput(a)\<close>. \<open>stray\<close>: an INPUT node \<open>z\<close> and a NOT gate
  \<open>v\<close> in the circuit and an OUTPUT node \<open>w\<close> that was never added, after
  \<open>w.addInput(z)\<close> and \<open>v.addInput(v)\<close>. \<open>latch\<close>: an INPUT node feeding an OR gate
  that forms a loop with a NOT gate, all three in the circuit.
\<close>

definition dangling_world :: world where
  "dangling_world =
     (let w1 = fst (new_CircuitNode empty_world ''a'' INPUT 0 0 ''INPUT'');
          w2 = fst (new_CircuitNode w1 ''b'' OUTPUT 0 0 [])
      in w2\<lparr>heap := addInput (heap w2) 1 0\<rparr>)"

definition dangling_circuit :: Circuit where
  "dangling_circuit = \<lparr>nodes = [(''a'', 0)]\<rparr>"

lemma dangling_built: "built dangling_world dangling_circuit"
proof -
  let ?w1 = "fst (new_CircuitNode empty_world ''a'' INPUT 0 0 ''INPUT'')"
  let ?w2 = "fst (new_CircuitNode ?w1 ''b'' OUTPUT 0 0 [])"
  have b2: "built ?w2 \<lparr>nodes = []\<rparr>" by (intro built.new built.start)
  have n: "next_ref ?w2 = 2" by (simp add: new_CircuitNode_def empty_world_def)
  have "built ?w2 (addNode (heap ?w2) \<lparr>nodes = []\<rparr> 0)"
    by (rule built.addNode [OF b2]) (simp add: n)
  moreover have "addNode (heap ?w2) \<lparr>nodes = []\<rparr> 0 = dangling_circuit"
    by (simp add: addNode_def new_CircuitNode_def empty_world_def dangling_circuit_def)
  ultimately have "built ?w2 dangling_circuit" by simp
  then have "built (?w2\<lparr>heap := addInput (heap ?w2) 1 0\<rparr>) dangling_circuit"
    by (rule built.addInput) (simp_all add: n)
  then show ?thesis by (simp add: dangling_world_def Let_def)
qed

lemma dangling_heap:
  "outputs (heap dangling_world 0) = [1]" "outputs (heap dangling_world (Suc 0)) = []"
  "id_n (heap dangling_world 0) = ''a''" "id_n (heap dangling_world (Suc 0)) = ''b''"
  by (simp_all add: dangling_world_def Let_def addInput_def new_CircuitNode_def empty_world_def)

lemma dangling_acyclic: "acyclic (edges (heap dangling_world) dangling_circuit)"
  by (rule acyclic_rank [where f = "\<lambda>r. r"])
    (auto simp: edges_def dangling_circuit_def node_refs_def dangling_heap)

lemma dangling_order:
  "getEvaluationOrder (heap dangling_world) dangling_circuit = Inl CycleDetected"
  by code_simp

definition stray_world :: world where
  "stray_world =
     (let w1 = fst (new_CircuitNode empty_world ''z'' INPUT 0 0 ''INPUT'');
          w2 = fst (new_CircuitNode w1 ''v'' NOT 0 0 []);
          w3 = fst (new_CircuitNode w2 ''w'' OUTPUT 0 0 []);
          w4 = w3\<lparr>heap := addInput (heap w3) 2 0\<rparr>
      in w4\<lparr>heap := addInput (heap w4) 1 1\<rparr>)"

definition stray_circuit :: Circuit where
  "stray_circuit = \<lparr>nodes = [(''z'', 0), (''v'', 1)]\<rparr>"

lemma stray_built: "built stray_world stray_circuit"
proof -
  let ?w1 = "fst (new_CircuitNode empty_world ''z'' INPUT 0 0 ''INPUT'')"
  let ?w2 = "fst (new_CircuitNode ?w1 ''v'' NOT 0 0 [])"
  let ?w3 = "fst (new_CircuitNode ?w2 ''w'' OUTPUT 0 0 [])"
  let ?w4 = "?w3\<lparr>heap := addInput (heap ?w3) 2 0\<rparr>"
  have b3: "built ?w3 \<lparr>nodes = []\<rparr>" by (intro built.new built.start)
  have n: "next_ref ?w3 = 3" by (simp add: new_CircuitNode_def empty_world_def)
  have "built ?w3 (addNode (heap ?w3) \<lparr>nodes = []\<rparr> 0)"
    by (rule built.addNode [OF b3]) (simp add: n)
  then have "built ?w3 (addNode (heap ?w3) (addNode (heap ?w3) \<lparr>nodes = []\<rparr> 0) 1)"
    by (rule built.addNode) (simp add: n)
  moreover have "addNode (heap ?w3) (addNode (heap ?w3) \<lparr>nodes = []\<rparr> 0) 1 = stray_circuit"
    by (simp add: addNode_def new_CircuitNode_def empty_world_def stray_circuit_def)
  ultimately have "built ?w3 stray_circuit" by simp
  then have "built ?w4 stray_circuit"
    by (rule built.addInput) (simp_all add: n)
  then have "built (?w4\<lparr>heap := addInput (heap ?w4) 1 1\<rparr>) stray_circuit"
    by (rule built.addInput) (simp_all add: n)
  then show ?thesis by (simp add: stray_world_def Let_def)
qed

lemma stray_heap:
  "outputs (heap stray_world 0) = [2]" "outputs (heap stray_world (Suc 0)) = [1]"
  "outputs (heap stray_world 2) = []"
  by (simp_all add: stray_world_def Let_def addInput_def new_CircuitNode_def empty_world_def)

lemma stray_cyclic: "\<not> acyclic (edges (heap stray_world) stray_circuit)"
proof -
  have "(1, 1) \<in> edges (heap stray_world) stray_circuit"
    by (simp add: edges_def stray_circuit_def node_refs_def stray_heap)
  then have "(1, 1) \<in> (edges (heap stray_world) stray_circuit)\<^sup>+" by (rule r_into_trancl)
  then show ?thesis by (auto simp: acyclic_def)
qed

lemma stray_order: "getEvaluationOrder (heap stray_world) stray_circuit = Inr [0, 2]"
  by code_simp

lemma stray_evaluate: "snd (evaluate (heap stray_world) stray_circuit) = Inr ()"
  by code_simp

lemma stray_table: "length (getTruthTable (heap stray_world) stray_circuit) = 2"
  by code_simp

definition latch_world :: world where
  "latch_world =
     (let w1 = fst (new_CircuitNode empty_world ''a'' INPUT 0 0 ''INPUT'');
          w2 = fst (new_CircuitNode w1 ''p'' OR 0 0 []);
          w3 = fst (new_CircuitNode w2 ''q'' NOT 0 0 []);
          c = \<lparr>nodes = [(''a'', 0), (''p'', 1), (''q'', 2)]\<rparr>;
          w4 = w3\<lparr>heap := addConnection (heap w3) c ''a'' ''p''\<rparr>;
          w5 = w4\<lparr>heap := addConnection (heap w4) c ''p'' ''q''\<rparr>
      in w5\<lparr>heap := addConnection (heap w5) c ''q'' ''p''\<rparr>)"

definition latch_circuit :: Circuit where
  "latch_circuit = \<lparr>nodes = [(''a'', 0), (''p'', 1), (''q'', 2)]\<rparr>"

lemma latch_built: "built latch_world latch_circuit"
proof -
  let ?w1 = "fst (new_CircuitNode empty_world ''a'' INPUT 0 0 ''INPUT'')"
  let ?w2 = "fst (new_CircuitNode ?w1 ''p'' OR 0 0 [])"
  let ?w3 = "fst (new_CircuitNode ?w2 ''q'' NOT 0 0 [])"
  let ?c = latch_circuit
  let ?w4 = "?w3\<lparr>heap := addConnection (heap ?w3) ?c ''a'' ''p''\<rparr>"
  let ?w5 = "?w4\<lparr>heap := addConnection (heap ?w4) ?c ''p'' ''q''\<rparr>"
  have b3: "built ?w3 \<lparr>nodes = []\<rparr>" by (intro built.new built.start)
  have n: "next_ref ?w3 = 3" by (simp add: new_CircuitNode_def empty_world_def)
  have "built ?w3 (addNode (heap ?w3) \<lparr>nodes = []\<rparr> 0)"
    by (rule built.addNode [OF b3]) (simp add: n)
  then have "built ?w3 (addNode (heap ?w3) (addNode (heap ?w3) \<lparr>nodes = []\<rparr> 0) 1)"
    by (rule built.addNode) (simp add: n)
  then have "built ?w3 (addNode (heap ?w3) (addNode (heap ?w3) (addNode (heap ?w3) \<lparr>nodes = []\<rparr> 0) 1) 2)"
    by (rule built.addNode) (simp add: n)
  moreover have "addNode (heap ?w3) (addNode (heap ?w3) (addNode (heap ?w3) \<lparr>nodes = []\<rparr> 0) 1) 2 = ?c"
    by (simp add: addNode_def new_CircuitNode_def empty_world_def latch_circuit_def)
  ultimately have "built ?w3 ?c" by simp
  then have "built ?w4 ?c" by (rule built.addConnection)
  then have "built ?w5 ?c" by (rule built.addConnection)
  then have "built (?w5\<lparr>heap := addConnection (heap ?w5) ?c ''q'' ''p''\<rparr>) ?c"
    by (rule built.addConnection)
  then show ?thesis by (simp add: latch_world_def latch_circuit_def Let_def)
qed

lemma latch_heap:
  "outputs (heap latch_world 0) = [1]" "outputs (heap latch_world (Suc 0)) = [2]"
  "outputs (heap latch_world 2) = [1]"
  by (simp_all add: latch_world_def Let_def addConnection_def addInput_def new_CircuitNode_def
      empty_world_def)

lemma latch_closed: "outputs_closed (heap latch_world) latch_circuit"
  by (simp add: outputs_closed_def latch_circuit_def node_refs_def latch_heap)

lemma latch_cyclic: "\<not> acyclic (edges (heap latch_world) latch_circuit)"
proof -
  have "(1, 2) \<in> edges (heap latch_world) latch_circuit"
    "(2, 1) \<in> edges (heap latch_world) latch_circuit"
    by (simp_all add: edges_def latch_circuit_def node_refs_def latch_heap)
  then have "(1, 1) \<in> (edges (heap latch_world) latch_circuit)\<^sup>+"
    by (rule trancl_into_trancl2 [OF _ r_into_trancl])
  then show ?thesis by (auto simp: acyclic_def)
qed

lemma wired_heap: "outputs (heap wired_world 0) = [1]" "outputs (heap wired_world (Suc 0)) = []"
  by (simp_all add: wired_world_def Let_def addConnection_def addInput_def new_CircuitNode_def
      empty_world_def)

lemma wired_closed: "outputs_closed (heap wired_world) wired_circuit"
  by (simp add: outputs_closed_def wired_circuit_def node_refs_def wired_heap)

lemma wired_acyclic: "acyclic (edges (heap wired_world) wired_circuit)"
  by (rule acyclic_rank [where f = "\<lambda>r. r"])
    (auto simp: edges_def wired_circuit_def node_refs_def wired_heap)

section \<open>Claims about the evaluation order\<close>

text \<open>
  C3, as the code has it. For every circuit built by the constructors and the public
  operations, whatever values its nodes hold, in which no node of the circuit has an
  output outside the circuit and whose dependency graph is acyclic,
  \<open>getEvaluationOrder\<close> returns a sequence that holds every node of the circuit exactly
  once, and for every edge from A to B (B is in the outputs of A), A stands strictly
  before B in the sequence.
\<close>

theorem getEvaluationOrder_acyclic:
  assumes "built w c" and "same_structure (heap w) h"
    and "outputs_closed h c" and "acyclic (edges h c)"
  shows "case getEvaluationOrder h c of
           Inl e \<Rightarrow> False
         | Inr order \<Rightarrow>
             distinct order \<and> set order = set (node_refs c) \<and>
             (\<forall>i < length order. \<forall>j < length order.
                order ! j \<in> set (outputs (h (order ! i))) \<longrightarrow> i < j)"
  using assms by (rule built_order_acyclic)

text \<open>The instance: an INPUT node wired to a NOT gate by \<open>addConnection\<close>.\<close>

theorem getEvaluationOrder_acyclic_witness:
  "built wired_world wired_circuit \<and>
   same_structure (heap wired_world) (heap wired_world) \<and>
   outputs_closed (heap wired_world) wired_circuit \<and>
   acyclic (edges (heap wired_world) wired_circuit) \<and>
   (case getEvaluationOrder (heap wired_world) wired_circuit of
      Inl e \<Rightarrow> False
    | Inr order \<Rightarrow>
        distinct order \<and> set order = set (node_refs wired_circuit) \<and>
        (\<forall>i < length order. \<forall>j < length order.
           order ! j \<in> set (outputs (heap wired_world (order ! i))) \<longrightarrow> i < j))"
  using getEvaluationOrder_acyclic [OF wired_built same_structure_refl wired_closed wired_acyclic]
    wired_built wired_closed wired_acyclic
  by (simp add: same_structure_refl)

text \<open>
  Without the condition on the outputs the claim fails: the dependency graph of
  \<open>dangling\<close> is the single edge from \<open>a\<close> to \<open>b\<close>, and \<open>getEvaluationOrder\<close>
  raises CycleDetected, as \<open>sorted\<close> holds two nodes and the node map one.
\<close>

theorem getEvaluationOrder_acyclic_counterexample:
  "built dangling_world dangling_circuit \<and>
   acyclic (edges (heap dangling_world) dangling_circuit) \<and>
   getEvaluationOrder (heap dangling_world) dangling_circuit = Inl CycleDetected"
  using dangling_built dangling_acyclic dangling_order by simp

text \<open>
  C4, as the code has it. For every circuit built by the constructors and the public
  operations, whatever values its nodes hold, in which no node of the circuit has an
  output outside the circuit and which contains a directed cycle, \<open>getEvaluationOrder\<close>
  and \<open>evaluate\<close> both raise CycleDetected, and the heap that the failed \<open>evaluate\<close>
  leaves behind is the heap it was given: no node value has changed.
\<close>

theorem cycle_raises:
  assumes "built w c" and "same_structure (heap w) h"
    and "outputs_closed h c" and "\<not> acyclic (edges h c)"
  shows "getEvaluationOrder h c = Inl CycleDetected \<and> evaluate h c = (h, Inl CycleDetected)"
  using assms by (rule built_order_cyclic)

text \<open>The instance: the latch.\<close>

theorem cycle_raises_witness:
  "built latch_world latch_circuit \<and>
   same_structure (heap latch_world) (heap latch_world) \<and>
   outputs_closed (heap latch_world) latch_circuit \<and>
   \<not> acyclic (edges (heap latch_world) latch_circuit) \<and>
   getEvaluationOrder (heap latch_world) latch_circuit = Inl CycleDetected \<and>
   evaluate (heap latch_world) latch_circuit = (heap latch_world, Inl CycleDetected)"
  using cycle_raises [OF latch_built same_structure_refl latch_closed latch_cyclic]
    latch_built latch_closed latch_cyclic
  by (simp add: same_structure_refl)

text \<open>
  Without the condition on the outputs the claim fails: \<open>stray\<close> has the cycle from
  \<open>v\<close> to \<open>v\<close>, and \<open>getEvaluationOrder\<close> returns \<open>z\<close> and the outside node \<open>w\<close>,
  two nodes as the node map has, and \<open>evaluate\<close> returns normally.
\<close>

theorem cycle_raises_counterexample:
  "built stray_world stray_circuit \<and>
   \<not> acyclic (edges (heap stray_world) stray_circuit) \<and>
   getEvaluationOrder (heap stray_world) stray_circuit = Inr [0, 2] \<and>
   snd (evaluate (heap stray_world) stray_circuit) = Inr ()"
  using stray_built stray_cyclic stray_order stray_evaluate by simp

text \<open>
  C7, as the code has it. For every circuit built by the constructors and the public
  operations, whatever values its nodes hold, in which no node of the circuit has an
  output outside the circuit and which contains a directed cycle, \<open>getTruthTable\<close>
  returns the empty table. The function has no other outcome than a list of rows: the
  exception of \<open>evaluate\<close> is caught inside.
\<close>

theorem truth_table_of_cycle_empty:
  assumes "built w c" and "same_structure (heap w) h"
    and "outputs_closed h c" and "\<not> acyclic (edges h c)"
  shows "getTruthTable h c = []"
  using assms by (rule built_table_cyclic)

text \<open>The instance: the latch.\<close>

theorem truth_table_of_cycle_empty_witness:
  "built latch_world latch_circuit \<and>
   same_structure (heap latch_world) (heap latch_world) \<and>
   outputs_closed (heap latch_world) latch_circuit \<and>
   \<not> acyclic (edges (heap latch_world) latch_circuit) \<and>
   getTruthTable (heap latch_world) latch_circuit = []"
  using truth_table_of_cycle_empty [OF latch_built same_structure_refl latch_closed latch_cyclic]
    latch_built latch_closed latch_cyclic
  by (simp add: same_structure_refl)

text \<open>
  Without the condition on the outputs the claim fails: \<open>stray\<close> has a cycle and one
  INPUT node, and its truth table has two rows.
\<close>

theorem truth_table_of_cycle_empty_counterexample:
  "built stray_world stray_circuit \<and>
   \<not> acyclic (edges (heap stray_world) stray_circuit) \<and>
   length (getTruthTable (heap stray_world) stray_circuit) = 2 \<and>
   getTruthTable (heap stray_world) stray_circuit \<noteq> []"
proof -
  from stray_table have "getTruthTable (heap stray_world) stray_circuit \<noteq> []" by auto
  with stray_built stray_cyclic stray_table show ?thesis by simp
qed

section \<open>The generated circuit\<close>

text \<open>
  The synthesis is followed step by step. \<open>bstate\<close> is what every step keeps: the
  list of keys of the node map, the data-model invariants, that every node of the map
  is an allocated object whose kind is the one its key announces, and that every edge
  leads from a lower layer (INPUT, NOT, AND, OR, OUTPUT) to a higher one.
\<close>

lemma digit_disj:
  "d < 10 \<Longrightarrow> d = 0 \<or> d = 1 \<or> d = 2 \<or> d = 3 \<or> d = 4 \<or> d = 5 \<or> d = 6 \<or> d = 7
     \<or> d = 8 \<or> d = (9::nat)"
  by arith

lemma digit_cases:
  assumes "d < 10"
  obtains "d = 0" | "d = 1" | "d = 2" | "d = 3" | "d = 4" | "d = 5" | "d = 6" | "d = 7"
    | "d = 8" | "d = (9::nat)"
  using digit_disj [OF assms] by blast

lemma digit_val_digit_char: "d < 10 \<Longrightarrow> digit_val (digit_char d) = d"
  by (erule digit_cases) (simp_all add: digit_val_def digit_char_def)

lemma digit_char_not_sep: "d < 10 \<Longrightarrow> digit_char d \<noteq> CHR ''_''"
  by (erule digit_cases) (simp_all add: digit_char_def)

definition undecimal :: "string \<Rightarrow> nat" where
  "undecimal s = foldl (\<lambda>acc ch. 10 * acc + digit_val ch) 0 s"

lemma undecimal_decimal: "undecimal (decimal n) = n"
proof (induction n rule: decimal.induct)
  case (1 n)
  show ?case
  proof (cases "n < 10")
    case True
    then show ?thesis
      by (subst decimal.simps) (simp add: undecimal_def digit_val_digit_char)
  next
    case False
    with 1 have "undecimal (decimal (n div 10)) = n div 10" by simp
    with False show ?thesis
      by (subst decimal.simps) (simp add: undecimal_def digit_val_digit_char)
  qed
qed

lemma decimal_inj: "decimal m = decimal n \<longleftrightarrow> m = n"
  by (metis undecimal_decimal)

lemma decimal_no_sep: "CHR ''_'' \<notin> set (decimal n)"
proof (induction n rule: decimal.induct)
  case (1 n)
  show ?case
  proof (cases "n < 10")
    case True
    then show ?thesis
      using digit_char_not_sep [of n] by (subst decimal.simps) auto
  next
    case False
    with 1 have "CHR ''_'' \<notin> set (decimal (n div 10))" by simp
    with False show ?thesis
      using digit_char_not_sep [of "n mod 10"] by (subst decimal.simps) auto
  qed
qed

lemma split_at_sep:
  "ch \<notin> set xs \<Longrightarrow> ch \<notin> set xs' \<Longrightarrow> xs @ ch # ys = xs' @ ch # ys' \<Longrightarrow> xs = xs' \<and> ys = ys'"
proof (induction xs arbitrary: xs')
  case Nil
  then show ?case by (cases xs') auto
next
  case (Cons x xs)
  then show ?case by (cases xs') auto
qed

lemma INPUT_id_inj: "INPUT_id i = INPUT_id j \<longleftrightarrow> i = j"
  by (simp add: INPUT_id_def decimal_inj)

lemma AND_id_inj: "AND_id i = AND_id j \<longleftrightarrow> i = j"
  by (simp add: AND_id_def decimal_inj)

lemma NOT_id_inj: "NOT_id m b = NOT_id m' b' \<longleftrightarrow> m = m' \<and> b = b'"
proof
  assume "NOT_id m b = NOT_id m' b'"
  then have "decimal m @ CHR ''_'' # decimal b = decimal m' @ CHR ''_'' # decimal b'"
    by (simp add: NOT_id_def)
  from split_at_sep [OF decimal_no_sep decimal_no_sep this]
  show "m = m' \<and> b = b'" by (simp add: decimal_inj)
qed simp

definition key_type :: "string \<Rightarrow> NodeType" where
  "key_type k =
     (if take 1 k = ''I'' then INPUT
      else if take 1 k = ''A'' then AND
      else if take 1 k = ''N'' then NOT
      else if take 2 k = ''OR'' then OR
      else OUTPUT)"

lemma key_type_simps:
  "key_type (INPUT_id i) = INPUT" "key_type (AND_id m) = AND" "key_type (NOT_id m b) = NOT"
  "key_type ''OR_FINAL'' = OR" "key_type ''OUTPUT'' = OUTPUT" "key_type ''OUTPUT_FINAL'' = OUTPUT"
  by (simp_all add: key_type_def INPUT_id_def AND_id_def NOT_id_def)

definition layer :: "NodeType \<Rightarrow> nat" where
  "layer t = (case t of INPUT \<Rightarrow> 0 | NOT \<Rightarrow> 1 | AND \<Rightarrow> 2 | OR \<Rightarrow> 3 | OUTPUT \<Rightarrow> 4 | XOR \<Rightarrow> 5)"

definition layered :: "heap \<Rightarrow> Circuit \<Rightarrow> bool" where
  "layered h c \<longleftrightarrow>
     (\<forall>a \<in> set (node_refs c). \<forall>b \<in> set (outputs (h a)). layer (type (h a)) < layer (type (h b)))"

definition bstate :: "world \<Rightarrow> Circuit \<Rightarrow> string list \<Rightarrow> bool" where
  "bstate w c K \<longleftrightarrow>
     map fst (nodes c) = K \<and> wellformed (heap w) c \<and>
     (\<forall>r \<in> set (node_refs c). r < next_ref w) \<and>
     (\<forall>(k, r) \<in> set (nodes c). type (heap w r) = key_type k) \<and>
     layered (heap w) c"

lemma layered_acyclic: "layered h c \<Longrightarrow> acyclic (edges h c)"
  by (rule acyclic_rank [where f = "\<lambda>r. layer (type (h r))"]) (auto simp: layered_def edges_def)

lemma update_fresh: "k \<notin> fst ` set al \<Longrightarrow> AList.update k v al = al @ [(k, v)]"
  by (induction al) auto

lemma new_fields:
  assumes "new_CircuitNode w i t x y l = (w', r)"
  shows "r = next_ref w" "next_ref w' = Suc (next_ref w)"
    "a \<noteq> next_ref w \<Longrightarrow> heap w' a = heap w a"
    "id_n (heap w' (next_ref w)) = i" "type (heap w' (next_ref w)) = t"
    "inputs (heap w' (next_ref w)) = []" "outputs (heap w' (next_ref w)) = []"
  using assms by (auto simp: new_CircuitNode_def)

lemma wellformed_new:
  assumes wf: "wellformed h c" and r: "r \<notin> set (node_refs c)" and k: "k \<notin> fst ` set (nodes c)"
    and N: "id_n N = k" "inputs N = []" "outputs N = []"
  shows "wellformed (h(r := N)) (c\<lparr>nodes := nodes c @ [(k, r)]\<rparr>)"
proof -
  let ?h = "h(r := N)" and ?c = "c\<lparr>nodes := nodes c @ [(k, r)]\<rparr>"
  have refs: "set (node_refs ?c) = insert r (set (node_refs c))" by (simp add: node_refs_def)
  have old: "a \<in> set (node_refs c) \<Longrightarrow> ?h a = h a" for a using r by auto
  from wf have closed: "a \<in> set (node_refs c) \<Longrightarrow>
      set (inputs (h a)) \<subseteq> set (node_refs c) \<and> set (outputs (h a)) \<subseteq> set (node_refs c)" for a
    by (simp add: wellformed_def)
  have 1: "distinct (map fst (nodes ?c))" using wf k by (simp add: wellformed_def)
  have 2: "\<forall>(k', r') \<in> set (nodes ?c). id_n (?h r') = k'"
  proof (clarify)
    fix k' r' assume "(k', r') \<in> set (nodes ?c)"
    then consider "(k', r') \<in> set (nodes c)" | "k' = k" "r' = r" by auto
    then show "id_n (?h r') = k'"
    proof cases
      case 1
      then have "r' \<in> set (node_refs c)" by (force simp: node_refs_def)
      with 1 wf old show ?thesis by (auto simp: wellformed_def)
    next
      case 2
      with N show ?thesis by simp
    qed
  qed
  have 3: "\<forall>a \<in> set (node_refs ?c).
        set (inputs (?h a)) \<subseteq> set (node_refs ?c) \<and> set (outputs (?h a)) \<subseteq> set (node_refs ?c) \<and>
        distinct (inputs (?h a)) \<and> distinct (outputs (?h a))"
  proof
    fix a assume "a \<in> set (node_refs ?c)"
    then consider "a = r" | "a \<noteq> r" "a \<in> set (node_refs c)" unfolding refs by auto
    then show "set (inputs (?h a)) \<subseteq> set (node_refs ?c) \<and> set (outputs (?h a)) \<subseteq> set (node_refs ?c) \<and>
        distinct (inputs (?h a)) \<and> distinct (outputs (?h a))"
    proof cases
      case 1
      with N show ?thesis by simp
    next
      case 2
      with wf closed [of a] show ?thesis unfolding refs by (auto simp: wellformed_def)
    qed
  qed
  have 4: "\<forall>a \<in> set (node_refs ?c). \<forall>b \<in> set (node_refs ?c).
        a \<in> set (inputs (?h b)) \<longleftrightarrow> b \<in> set (outputs (?h a))"
  proof (intro ballI)
    fix a b assume a: "a \<in> set (node_refs ?c)" and b: "b \<in> set (node_refs ?c)"
    show "a \<in> set (inputs (?h b)) \<longleftrightarrow> b \<in> set (outputs (?h a))"
    proof (cases "a = r \<or> b = r")
      case True
      with a b r closed [of a] closed [of b] N show ?thesis unfolding refs by auto
    next
      case False
      with a b wf show ?thesis unfolding refs by (auto simp: wellformed_def)
    qed
  qed
  from 1 2 3 4 show ?thesis unfolding wellformed_def by blast
qed

lemma wellformed_addInput:
  assumes wf: "wellformed h c" and a: "a \<in> set (node_refs c)" and b: "b \<in> set (node_refs c)"
  shows "wellformed (addInput h b a) c"
proof -
  let ?h = "addInput h b a"
  from wf a b have sym: "a \<in> set (inputs (h b)) \<longleftrightarrow> b \<in> set (outputs (h a))"
    by (simp add: wellformed_def)
  have 1: "distinct (map fst (nodes c))" using wf by (simp add: wellformed_def)
  have 2: "\<forall>(k', r') \<in> set (nodes c). id_n (?h r') = k'"
    using wf by (simp add: wellformed_def addInput_fields)
  have 3: "\<forall>x \<in> set (node_refs c).
        set (inputs (?h x)) \<subseteq> set (node_refs c) \<and> set (outputs (?h x)) \<subseteq> set (node_refs c) \<and>
        distinct (inputs (?h x)) \<and> distinct (outputs (?h x))"
    using wf a b sym by (auto simp: wellformed_def addInput_fields)
  have 4: "\<forall>x \<in> set (node_refs c). \<forall>y \<in> set (node_refs c).
        x \<in> set (inputs (?h y)) \<longleftrightarrow> y \<in> set (outputs (?h x))"
    using wf by (auto simp: wellformed_def addInput_fields)
  from 1 2 3 4 show ?thesis unfolding wellformed_def by blast
qed


lemma bstate_new:
  assumes bs: "bstate w c K" and k: "k \<notin> set K"
    and new: "new_CircuitNode w k t x y l = (w', r)" and kt: "key_type k = t"
  shows "bstate w' (addNode (heap w') c r) (K @ [k])"
    and "nodes (addNode (heap w') c r) = nodes c @ [(k, r)]"
proof -
  from bs have K: "map fst (nodes c) = K" and wf: "wellformed (heap w) c"
    and al: "\<forall>r \<in> set (node_refs c). r < next_ref w"
    and ty: "\<forall>(k, r) \<in> set (nodes c). type (heap w r) = key_type k"
    and la: "layered (heap w) c" by (simp_all add: bstate_def)
  from new have r: "r = next_ref w" and nx: "next_ref w' = Suc (next_ref w)"
    and hp: "heap w' = (heap w)(r := heap w' r)"
    and N: "id_n (heap w' r) = k" "type (heap w' r) = t" "inputs (heap w' r) = []"
      "outputs (heap w' r) = []"
    by (auto simp: new_CircuitNode_def)
  from al r have fresh: "r \<notin> set (node_refs c)" by auto
  from K have "fst ` set (nodes c) = set K" by (simp flip: set_map)
  with k have kf: "k \<notin> fst ` set (nodes c)" by simp
  let ?c = "addNode (heap w') c r"
  show nodes: "nodes ?c = nodes c @ [(k, r)]"
    using kf N by (simp add: addNode_def update_fresh)
  then have ceq: "?c = c\<lparr>nodes := nodes c @ [(k, r)]\<rparr>" by (simp add: addNode_def)
  have refs: "set (node_refs ?c) = insert r (set (node_refs c))" by (simp add: nodes node_refs_def)
  have old: "a \<in> set (node_refs c) \<Longrightarrow> heap w' a = heap w a" for a
    using fresh new by (auto simp: new_CircuitNode_def)
  have wf': "wellformed (heap w') ?c"
    unfolding ceq by (subst hp) (rule wellformed_new [OF wf fresh kf N(1,3,4)])
  have 1: "map fst (nodes ?c) = K @ [k]" using K by (simp add: nodes)
  have 3: "\<forall>r \<in> set (node_refs ?c). r < next_ref w'" using al r nx unfolding refs by auto
  have 4: "\<forall>(k, r) \<in> set (nodes ?c). type (heap w' r) = key_type k"
  proof (clarify)
    fix k' r' assume "(k', r') \<in> set (nodes ?c)"
    then consider "(k', r') \<in> set (nodes c)" | "k' = k" "r' = r" unfolding nodes by auto
    then show "type (heap w' r') = key_type k'"
    proof cases
      case 1
      then have "r' \<in> set (node_refs c)" by (force simp: node_refs_def)
      with 1 ty old show ?thesis by auto
    next
      case 2
      with N kt show ?thesis by simp
    qed
  qed
  have 5: "layered (heap w') ?c"
    unfolding layered_def
  proof (intro ballI)
    fix a b assume a: "a \<in> set (node_refs ?c)" and b: "b \<in> set (outputs (heap w' a))"
    from a b N have ar: "a \<in> set (node_refs c)" unfolding refs by auto
    with b wf have "b \<in> set (node_refs c)" by (auto simp: old wellformed_def)
    with ar b la show "layer (type (heap w' a)) < layer (type (heap w' b))"
      by (simp add: old layered_def)
  qed
  from 1 wf' 3 4 5 show "bstate w' ?c (K @ [k])" unfolding bstate_def by blast
qed

lemma connect_eq:
  "map_of (nodes c) f = Some a \<Longrightarrow> map_of (nodes c) t = Some b \<Longrightarrow>
     addConnection h c f t = addInput h b a"
  by (simp add: addConnection_def)

lemma bstate_addInput:
  assumes bs: "bstate w c K" and a: "a \<in> set (node_refs c)" and b: "b \<in> set (node_refs c)"
    and lt: "layer (type (heap w a)) < layer (type (heap w b))"
  shows "bstate (w\<lparr>heap := addInput (heap w) b a\<rparr>) c K"
proof -
  from bs have wf: "wellformed (heap w) c" and la: "layered (heap w) c" by (simp_all add: bstate_def)
  have "layered (addInput (heap w) b a) c"
    using la lt unfolding layered_def by (auto simp: addInput_fields split: if_splits)
  with bs wellformed_addInput [OF wf a b] show ?thesis
    by (simp add: bstate_def addInput_fields)
qed

lemma bstate_lookup:
  assumes "bstate w c K" "map_of (nodes c) k = Some r"
  shows "r \<in> set (node_refs c)" "r < next_ref w" "id_n (heap w r) = k" "type (heap w r) = key_type k"
proof -
  from assms(2) have m: "(k, r) \<in> set (nodes c)" by (rule map_of_SomeD)
  then show r: "r \<in> set (node_refs c)" by (force simp: node_refs_def)
  with assms(1) show "r < next_ref w" by (simp add: bstate_def)
  from assms(1) m show "id_n (heap w r) = k" by (auto simp: bstate_def wellformed_def)
  from assms(1) m show "type (heap w r) = key_type k" by (auto simp: bstate_def)
qed

lemma bstate_lookup_new:
  assumes "bstate w c K" "k \<notin> set K" "nodes c' = nodes c @ [(k, r)]"
  shows "map_of (nodes c') k = Some r"
    and "map_of (nodes c) k' = Some r' \<Longrightarrow> map_of (nodes c') k' = Some r'"
proof -
  from assms(1) have "map fst (nodes c) = K" by (simp add: bstate_def)
  then have "fst ` set (nodes c) = set K" by (simp flip: set_map)
  with assms(2) have "k \<notin> fst ` set (nodes c)" by simp
  then have "map_of (nodes c) k = None" by (simp add: map_of_eq_None_iff)
  then show "map_of (nodes c') k = Some r" by (simp add: assms(3) map_add_def)
  show "map_of (nodes c) k' = Some r' \<Longrightarrow> map_of (nodes c') k' = Some r'"
    by (simp add: assms(3) map_add_def)
qed

definition direct :: "nat \<Rightarrow> int \<Rightarrow> nat \<Rightarrow> bool" where
  "direct n row b \<longleftrightarrow> bit row ((n - 1 - b) mod 32)"

definition literal :: "heap \<Rightarrow> ref list \<Rightarrow> nat \<Rightarrow> int \<Rightarrow> nat \<Rightarrow> ref \<Rightarrow> bool" where
  "literal h ins n row b l \<longleftrightarrow>
     (if direct n row b then l = ins ! b else type (h l) = NOT \<and> inputs (h l) = [ins ! b])"

definition minterm_gate :: "heap \<Rightarrow> ref list \<Rightarrow> nat \<Rightarrow> int \<Rightarrow> ref \<Rightarrow> bool" where
  "minterm_gate h ins n row g \<longleftrightarrow>
     type (h g) = AND \<and> length (inputs (h g)) = n \<and>
     (\<forall>b < n. literal h ins n row b (inputs (h g) ! b))"

definition frame :: "ref \<Rightarrow> world \<Rightarrow> world \<Rightarrow> bool" where
  "frame g w w' \<longleftrightarrow>
     next_ref w \<le> next_ref w' \<and>
     (\<forall>r < next_ref w. type (heap w' r) = type (heap w r) \<and> id_n (heap w' r) = id_n (heap w r) \<and>
        (r \<noteq> g \<longrightarrow> inputs (heap w' r) = inputs (heap w r)))"

lemma frame_refl: "frame g w w"
  by (simp add: frame_def)

lemma frame_trans: "frame g w w' \<Longrightarrow> frame g w' w'' \<Longrightarrow> frame g w w''"
  unfolding frame_def by (metis le_trans less_le_trans)

lemma frame_new:
  "new_CircuitNode w k t x y l = (w', r) \<Longrightarrow> frame g w w'"
  by (auto simp: frame_def new_CircuitNode_def)

lemma frame_addInput: "frame g w (w\<lparr>heap := addInput (heap w) g a\<rparr>)"
  by (simp add: frame_def addInput_fields)

lemma frame_addInput_new: "next_ref w \<le> b \<Longrightarrow> frame g w (w\<lparr>heap := addInput (heap w) b a\<rparr>)"
  by (auto simp: frame_def addInput_fields)

definition input_keys :: "nat \<Rightarrow> string list" where
  "input_keys n = map INPUT_id [0..<n]"

lemma bstate_empty: "bstate w0 \<lparr>nodes = []\<rparr> []"
  by (simp add: bstate_def wellformed_def node_refs_def layered_def)

definition unwired :: "heap \<Rightarrow> Circuit \<Rightarrow> bool" where
  "unwired h c \<longleftrightarrow> (\<forall>r \<in> set (node_refs c). inputs (h r) = [] \<and> outputs (h r) = [])"

lemma unwired_new:
  assumes bs: "bstate w c K" and k: "k \<notin> set K"
    and new: "new_CircuitNode w k t x y l = (w', r)" and u: "unwired (heap w) c"
  shows "unwired (heap w') (addNode (heap w') c r)"
proof -
  note N = new_fields [OF new]
  from bs have "fst ` set (nodes c) = set K" by (simp add: bstate_def flip: set_map)
  with k have "k \<notin> fst ` set (nodes c)" by simp
  then have n: "node_refs (addNode (heap w') c r) = node_refs c @ [r]"
    using N(1,4) by (simp add: addNode_def update_fresh node_refs_def)
  from bs have old: "\<forall>a \<in> set (node_refs c). a \<noteq> next_ref w" by (auto simp: bstate_def)
  show ?thesis
    unfolding unwired_def n
  proof
    fix a assume "a \<in> set (node_refs c @ [r])"
    then consider "a \<in> set (node_refs c)" | "a = next_ref w" using N(1) by auto
    then show "inputs (heap w' a) = [] \<and> outputs (heap w' a) = []"
    proof cases
      case 1
      with old have "a \<noteq> next_ref w" by simp
      with N(3) [of a] u 1 show ?thesis by (simp add: unwired_def)
    next
      case 2
      with N show ?thesis by simp
    qed
  qed
qed

lemma create_input_step:
  assumes bs: "bstate w c (input_keys i)" and len: "length ins = i"
    and nodes: "nodes c = zip (input_keys i) ins" and u: "unwired (heap w) c"
  shows "\<exists>w' c' r. create_input i (w, c, ins) = (w', c', ins @ [r]) \<and>
     bstate w' c' (input_keys (Suc i)) \<and> nodes c' = zip (input_keys (Suc i)) (ins @ [r]) \<and>
     next_ref w' = Suc (next_ref w) \<and> unwired (heap w') c'"
proof -
  obtain w' r where new: "new_CircuitNode w (INPUT_id i) INPUT startX (startY + int i * 120) ''INPUT'' = (w', r)"
    by (cases "new_CircuitNode w (INPUT_id i) INPUT startX (startY + int i * 120) ''INPUT''")
  have fresh: "INPUT_id i \<notin> set (input_keys i)"
    by (auto simp: input_keys_def INPUT_id_inj)
  let ?c = "addNode (heap w') c r"
  from bstate_new [OF bs fresh new key_type_simps(1)]
  have bs': "bstate w' ?c (input_keys i @ [INPUT_id i])" and n': "nodes ?c = nodes c @ [(INPUT_id i, r)]"
    by simp_all
  have k: "input_keys (Suc i) = input_keys i @ [INPUT_id i]" by (simp add: input_keys_def)
  have 1: "create_input i (w, c, ins) = (w', ?c, ins @ [r])"
    using new by (simp add: create_input_def new_InputNode_def)
  have 2: "nodes ?c = zip (input_keys (Suc i)) (ins @ [r])"
    using n' nodes len by (simp add: k input_keys_def)
  from new have 3: "next_ref w' = Suc (next_ref w)" by (simp add: new_fields)
  note 4 = unwired_new [OF bs fresh new u]
  from 1 bs' 2 3 4 show ?thesis unfolding k by blast
qed

lemma create_inputs:
  "\<exists>w c ins. fold create_input [0..<i] (w0, \<lparr>nodes = []\<rparr>, []) = (w, c, ins) \<and>
     bstate w c (input_keys i) \<and> length ins = i \<and> nodes c = zip (input_keys i) ins \<and>
     next_ref w = next_ref w0 + i \<and> unwired (heap w) c"
proof (induction i)
  case 0
  show ?case by (simp add: input_keys_def bstate_empty unwired_def node_refs_def)
next
  case (Suc i)
  then obtain w c ins where f: "fold create_input [0..<i] (w0, \<lparr>nodes = []\<rparr>, []) = (w, c, ins)"
    and bs: "bstate w c (input_keys i)" and len: "length ins = i"
    and nodes: "nodes c = zip (input_keys i) ins" and nx: "next_ref w = next_ref w0 + i"
    and u: "unwired (heap w) c" by blast
  from create_input_step [OF bs len nodes u]
  obtain w' c' r where st: "create_input i (w, c, ins) = (w', c', ins @ [r])"
    and bs': "bstate w' c' (input_keys (Suc i))"
    and nodes': "nodes c' = zip (input_keys (Suc i)) (ins @ [r])"
    and nx': "next_ref w' = Suc (next_ref w)" and u': "unwired (heap w') c'" by blast
  have "fold create_input [0..<Suc i] (w0, \<lparr>nodes = []\<rparr>, []) = (w', c', ins @ [r])"
    using f st by simp
  with bs' nodes' len nx nx' u' show ?case by auto
qed

lemma wire_bit_direct:
  assumes bs: "bstate w c K"
    and g: "map_of (nodes c) (AND_id m) = Some g"
    and inb: "map_of (nodes c) (INPUT_id b) = Some (ins ! b)"
    and notin: "ins ! b \<notin> set (inputs (heap w g))"
    and d: "direct n row b"
  shows "wire_bit n ins row m g b (w, c) = (w\<lparr>heap := addInput (heap w) g (ins ! b)\<rparr>, c)"
    and "bstate (w\<lparr>heap := addInput (heap w) g (ins ! b)\<rparr>) c K"
    and "inputs (addInput (heap w) g (ins ! b) g) = inputs (heap w g) @ [ins ! b]"
proof -
  note G = bstate_lookup [OF bs g] and I = bstate_lookup [OF bs inb]
  from d have one: "js_and (js_sar row (n - 1 - b)) 1 \<noteq> 0" by (simp add: js_bit direct_def)
  show "wire_bit n ins row m g b (w, c) = (w\<lparr>heap := addInput (heap w) g (ins ! b)\<rparr>, c)"
    using one g inb by (simp add: wire_bit_def Let_def G(3) I(3) connect_eq)
  have "layer (type (heap w (ins ! b))) < layer (type (heap w g))"
    by (simp add: G(4) I(4) key_type_simps layer_def)
  then show "bstate (w\<lparr>heap := addInput (heap w) g (ins ! b)\<rparr>) c K"
    by (rule bstate_addInput [OF bs I(1) G(1)])
  show "inputs (addInput (heap w) g (ins ! b) g) = inputs (heap w g) @ [ins ! b]"
    using notin by (simp add: addInput_fields)
qed

lemma wire_bit_negated:
  assumes bs: "bstate w c K"
    and g: "map_of (nodes c) (AND_id m) = Some g"
    and inb: "map_of (nodes c) (INPUT_id b) = Some (ins ! b)"
    and fresh: "NOT_id m b \<notin> set K"
    and d: "\<not> direct n row b"
  shows "\<exists>w' c'. wire_bit n ins row m g b (w, c) = (w', c') \<and>
      bstate w' c' (K @ [NOT_id m b]) \<and> nodes c' = nodes c @ [(NOT_id m b, next_ref w)] \<and>
      frame g w w' \<and> inputs (heap w' g) = inputs (heap w g) @ [next_ref w] \<and>
      type (heap w' (next_ref w)) = NOT \<and> inputs (heap w' (next_ref w)) = [ins ! b]"
proof -
  let ?r = "next_ref w" and ?i = "ins ! b"
  let ?y = "y_n (heap w g) + int b * 10 - 20"
  note G = bstate_lookup [OF bs g] and I = bstate_lookup [OF bs inb]
  from d have zero: "js_and (js_sar row (n - 1 - b)) 1 = 0" by (simp add: js_bit [symmetric] direct_def)
  obtain w1 r where new: "new_CircuitNode w (NOT_id m b) NOT (startX + 200) ?y [] = (w1, r)"
    by (cases "new_CircuitNode w (NOT_id m b) NOT (startX + 200) ?y []")
  note N = new_fields [OF new]
  let ?c1 = "addNode (heap w1) c r"
  from bstate_new [OF bs fresh new key_type_simps(3)]
  have bs1: "bstate w1 ?c1 (K @ [NOT_id m b])" and n1: "nodes ?c1 = nodes c @ [(NOT_id m b, r)]"
    by simp_all
  from bstate_lookup_new [OF bs fresh n1]
  have lr: "map_of (nodes ?c1) (NOT_id m b) = Some r"
    and li: "map_of (nodes ?c1) (INPUT_id b) = Some ?i"
    and lg: "map_of (nodes ?c1) (AND_id m) = Some g"
    using g inb by simp_all
  note R1 = bstate_lookup [OF bs1 lr] and I1 = bstate_lookup [OF bs1 li] and G1 = bstate_lookup [OF bs1 lg]
  from G(2) I(2) N(1) have ne: "g \<noteq> r" "?i \<noteq> r" by simp_all
  let ?h2 = "addInput (heap w1) r ?i"
  let ?w2 = "w1\<lparr>heap := ?h2\<rparr>"
  have c2: "addConnection (heap w1) ?c1 (id_n (heap w1 ?i)) (NOT_id m b) = ?h2"
    by (simp add: I1(3) connect_eq [OF li lr])
  have "layer (type (heap w1 ?i)) < layer (type (heap w1 r))"
    by (simp add: I1(4) R1(4) key_type_simps layer_def)
  then have bs2: "bstate ?w2 ?c1 (K @ [NOT_id m b])"
    by (rule bstate_addInput [OF bs1 I1(1) R1(1)])
  have r_in: "inputs (?h2 r) = [?i]" using N by (simp add: addInput_fields)
  let ?h3 = "addInput ?h2 g r"
  have c3: "addConnection ?h2 ?c1 (NOT_id m b) (id_n (?h2 g)) = ?h3"
    by (simp add: addInput_fields G1(3) connect_eq [OF lr lg])
  have "layer (type (heap ?w2 r)) < layer (type (heap ?w2 g))"
    by (simp add: addInput_fields G1(4) R1(4) key_type_simps layer_def)
  from bstate_addInput [OF bs2 R1(1) G1(1) this]
  have bs3: "bstate (w1\<lparr>heap := ?h3\<rparr>) ?c1 (K @ [NOT_id m b])" by simp
  from bs G(1) have "set (inputs (heap w g)) \<subseteq> set (node_refs c)"
    by (simp add: bstate_def wellformed_def)
  with bs have "\<forall>x \<in> set (inputs (heap w g)). x < next_ref w" by (auto simp: bstate_def)
  with N(1) have rn: "r \<notin> set (inputs (heap w g))" by auto
  have g_in: "inputs (?h3 g) = inputs (heap w g) @ [r]"
    using rn ne N(3) [of g] N(1) by (simp add: addInput_fields)
  have r_in3: "inputs (?h3 r) = [?i]" "type (?h3 r) = NOT"
    using ne r_in N by (simp_all add: addInput_fields)
  have fr: "frame g w (w1\<lparr>heap := ?h3\<rparr>)"
    unfolding frame_def using N(1,2) N(3) by (auto simp: addInput_fields)
  have "wire_bit n ins row m g b (w, c) = (w1\<lparr>heap := ?h3\<rparr>, ?c1)"
    using zero new c2 c3 by (simp add: wire_bit_def Let_def new_NotGate_def)
  with bs3 n1 fr g_in r_in3 N(1) show ?thesis by auto
qed

lemma map_of_prefix:
  "nodes c' = nodes c @ ys \<Longrightarrow> map_of (nodes c) k = Some r \<Longrightarrow> map_of (nodes c') k = Some r"
  by (simp add: map_add_def)

lemma literal_frame:
  assumes "literal (heap w) ins n row b l" "frame g w w'" "l < next_ref w" "l \<noteq> g"
  shows "literal (heap w') ins n row b l"
  using assms unfolding literal_def frame_def by auto

lemma wire_bit_step:
  assumes bs: "bstate w c K"
    and g: "map_of (nodes c) (AND_id m) = Some g"
    and inb: "map_of (nodes c) (INPUT_id b) = Some (ins ! b)"
    and fresh: "NOT_id m b \<notin> set K"
    and notin: "ins ! b \<notin> set (inputs (heap w g))"
  shows "\<exists>w' c' l ys. wire_bit n ins row m g b (w, c) = (w', c') \<and>
      bstate w' c' (K @ (if direct n row b then [] else [NOT_id m b])) \<and>
      nodes c' = nodes c @ ys \<and> frame g w w' \<and>
      inputs (heap w' g) = inputs (heap w g) @ [l] \<and> literal (heap w') ins n row b l"
proof (cases "direct n row b")
  case True
  from wire_bit_direct [OF bs g inb notin True] True frame_addInput [of g w "ins ! b"]
  show ?thesis by (auto simp: literal_def)
next
  case False
  from wire_bit_negated [OF bs g inb fresh False] False
  show ?thesis by (auto simp: literal_def)
qed

lemma wire_bits:
  assumes bs1: "bstate w1 c1 K1"
    and g: "map_of (nodes c1) (AND_id m) = Some g"
    and g0: "inputs (heap w1 g) = []"
    and ins: "\<forall>b < n. map_of (nodes c1) (INPUT_id b) = Some (ins ! b)"
    and fresh: "\<forall>b. NOT_id m b \<notin> set K1"
  shows "j \<le> n \<Longrightarrow>
    \<exists>w c ys. fold (wire_bit n ins row m g) [0..<j] (w1, c1) = (w, c) \<and>
      bstate w c (K1 @ map (NOT_id m) (filter (\<lambda>b. \<not> direct n row b) [0..<j])) \<and>
      nodes c = nodes c1 @ ys \<and> frame g w1 w \<and>
      length (inputs (heap w g)) = j \<and>
      (\<forall>b < j. literal (heap w) ins n row b (inputs (heap w g) ! b))"
proof (induction j)
  case 0
  show ?case using bs1 g0 by (simp add: frame_refl)
next
  case (Suc j)
  let ?K = "K1 @ map (NOT_id m) (filter (\<lambda>b. \<not> direct n row b) [0..<j])"
  from Suc obtain w c ys where f: "fold (wire_bit n ins row m g) [0..<j] (w1, c1) = (w, c)"
    and bs: "bstate w c ?K" and pre: "nodes c = nodes c1 @ ys" and fr: "frame g w1 w"
    and len: "length (inputs (heap w g)) = j"
    and lits: "\<forall>b < j. literal (heap w) ins n row b (inputs (heap w g) ! b)"
    by auto
  from Suc.prems have jn: "j < n" by simp
  have lg: "map_of (nodes c) (AND_id m) = Some g" by (rule map_of_prefix [OF pre g])
  have li: "map_of (nodes c) (INPUT_id b) = Some (ins ! b)" if "b < n" for b
    using ins that by (auto intro: map_of_prefix [OF pre])
  note G = bstate_lookup [OF bs lg]
  have tyI: "type (heap w (ins ! b)) = INPUT" "id_n (heap w (ins ! b)) = INPUT_id b" if "b < n" for b
    using bstate_lookup [OF bs li [OF that]] by (simp_all add: key_type_simps)
  have lit_props: "inputs (heap w g) ! b < next_ref w \<and> inputs (heap w g) ! b \<noteq> g \<and>
      inputs (heap w g) ! b \<noteq> ins ! j" if b: "b < j" for b
  proof -
    let ?l = "inputs (heap w g) ! b"
    from b len have mem: "?l \<in> set (inputs (heap w g))" by simp
    with bs G(1) have "?l \<in> set (node_refs c)" by (auto simp: bstate_def wellformed_def)
    with bs have 1: "?l < next_ref w" by (simp add: bstate_def)
    from lits b have lit: "literal (heap w) ins n row b ?l" by simp
    from b jn have bn: "b < n" by simp
    have ty: "type (heap w ?l) \<noteq> AND \<and> ?l \<noteq> ins ! j"
    proof (cases "direct n row b")
      case True
      with lit have e: "?l = ins ! b" by (simp add: literal_def)
      have "ins ! b \<noteq> ins ! j"
      proof
        assume "ins ! b = ins ! j"
        with tyI(2) [OF bn] tyI(2) [OF jn] have "INPUT_id b = INPUT_id j" by simp
        with b show False by (simp add: INPUT_id_inj)
      qed
      with e tyI(1) [OF bn] show ?thesis by simp
    next
      case False
      with lit have "type (heap w ?l) = NOT" by (simp add: literal_def)
      with tyI(1) [OF jn] show ?thesis by auto
    qed
    with G(4) have "?l \<noteq> g" by (auto simp: key_type_simps)
    with 1 ty show ?thesis by simp
  qed
  have notin: "ins ! j \<notin> set (inputs (heap w g))"
  proof
    assume "ins ! j \<in> set (inputs (heap w g))"
    then obtain b where "b < j" "inputs (heap w g) ! b = ins ! j"
      using len by (auto simp: in_set_conv_nth)
    with lit_props [of b] show False by simp
  qed
  have fr_j: "NOT_id m j \<notin> set ?K" using fresh by (auto simp: NOT_id_inj)
  from wire_bit_step [OF bs lg li [OF jn] fr_j notin, of n row]
  obtain w' c' l ys' where st: "wire_bit n ins row m g j (w, c) = (w', c')"
    and bs': "bstate w' c' (?K @ (if direct n row j then [] else [NOT_id m j]))"
    and pre': "nodes c' = nodes c @ ys'" and fr': "frame g w w'"
    and in': "inputs (heap w' g) = inputs (heap w g) @ [l]"
    and lit': "literal (heap w') ins n row j l" by blast
  have 1: "fold (wire_bit n ins row m g) [0..<Suc j] (w1, c1) = (w', c')"
    using f st by simp
  have 2: "bstate w' c' (K1 @ map (NOT_id m) (filter (\<lambda>b. \<not> direct n row b) [0..<Suc j]))"
    using bs' by (cases "direct n row j") simp_all
  have 3: "nodes c' = nodes c1 @ (ys @ ys')" using pre pre' by simp
  have 4: "frame g w1 w'" by (rule frame_trans [OF fr fr'])
  have 5: "length (inputs (heap w' g)) = Suc j" using in' len by simp
  have 6: "\<forall>b < Suc j. literal (heap w') ins n row b (inputs (heap w' g) ! b)"
  proof (intro allI impI)
    fix b assume b: "b < Suc j"
    show "literal (heap w') ins n row b (inputs (heap w' g) ! b)"
    proof (cases "b < j")
      case True
      with lits have "literal (heap w) ins n row b (inputs (heap w g) ! b)" by simp
      from literal_frame [OF this fr'] lit_props [OF True]
      have "literal (heap w') ins n row b (inputs (heap w g) ! b)" by simp
      with True len show ?thesis by (simp add: in' nth_append)
    next
      case False
      with b have "b = j" by simp
      with lit' len show ?thesis by (simp add: in' nth_append)
    qed
  qed
  from 1 2 3 4 5 6 show ?case by blast
qed

definition minterm_keys :: "nat \<Rightarrow> nat \<times> nat \<Rightarrow> string list" where
  "minterm_keys n rm =
     AND_id (snd rm) # map (NOT_id (snd rm)) (filter (\<lambda>b. \<not> direct n (int (fst rm)) b) [0..<n])"

definition gate_keys :: "nat \<Rightarrow> nat list \<Rightarrow> string list" where
  "gate_keys n ms = concat (map (minterm_keys n) (zip ms [0..<length ms]))"

lemma id_families:
  "INPUT_id i \<noteq> AND_id m" "INPUT_id i \<noteq> NOT_id m b" "AND_id m \<noteq> NOT_id m' b"
  "INPUT_id i \<noteq> ''OR_FINAL''" "AND_id m \<noteq> ''OR_FINAL''" "NOT_id m b \<noteq> ''OR_FINAL''"
  "INPUT_id i \<noteq> ''OUTPUT''" "AND_id m \<noteq> ''OUTPUT''" "NOT_id m b \<noteq> ''OUTPUT''"
  "INPUT_id i \<noteq> ''OUTPUT_FINAL''"
  "AND_id m \<noteq> INPUT_id i" "NOT_id m b \<noteq> INPUT_id i" "NOT_id m' b \<noteq> AND_id m"
  "''OR_FINAL'' \<noteq> INPUT_id i" "''OR_FINAL'' \<noteq> AND_id m" "''OR_FINAL'' \<noteq> NOT_id m b"
  "''OUTPUT'' \<noteq> INPUT_id i" "''OUTPUT'' \<noteq> AND_id m" "''OUTPUT'' \<noteq> NOT_id m b"
  "''OUTPUT_FINAL'' \<noteq> INPUT_id i"
  by (simp_all add: INPUT_id_def AND_id_def NOT_id_def)

lemma input_keys_mem: "k \<in> set (input_keys n) \<longleftrightarrow> (\<exists>b < n. k = INPUT_id b)"
  by (auto simp: input_keys_def)

lemma gate_keys_snoc: "gate_keys n (ms @ [row]) = gate_keys n ms @ minterm_keys n (row, length ms)"
  by (simp add: gate_keys_def)

lemma minterm_keys_mem:
  "k \<in> set (minterm_keys n (row, m)) \<Longrightarrow> k = AND_id m \<or> (\<exists>b < n. k = NOT_id m b)"
  by (auto simp: minterm_keys_def)

lemma gate_keys_mem:
  "k \<in> set (gate_keys n ms) \<Longrightarrow>
     (\<exists>j < length ms. k = AND_id j) \<or> (\<exists>j < length ms. \<exists>b < n. k = NOT_id j b)"
proof (induction ms rule: rev_induct)
  case Nil
  then show ?case by (simp add: gate_keys_def)
next
  case (snoc row ms)
  from snoc.prems consider "k \<in> set (gate_keys n ms)" | "k \<in> set (minterm_keys n (row, length ms))"
    by (auto simp: gate_keys_snoc)
  then show ?case
  proof cases
    case 1
    from snoc.IH [OF 1] show ?thesis by (auto simp: less_Suc_eq)
  next
    case 2
    from minterm_keys_mem [OF 2] show ?thesis by auto
  qed
qed

lemma minterm_gate_frame:
  assumes mg: "minterm_gate (heap w) ins n row g'" and fr: "frame g w w'"
    and g': "g' < next_ref w" "g' \<noteq> g"
    and lits: "\<forall>l \<in> set (inputs (heap w g')). l < next_ref w \<and> l \<noteq> g"
  shows "minterm_gate (heap w') ins n row g'"
proof -
  from fr g' have same: "type (heap w' g') = type (heap w g')" "inputs (heap w' g') = inputs (heap w g')"
    by (simp_all add: frame_def)
  have "literal (heap w') ins n row b (inputs (heap w g') ! b)" if "b < n" for b
  proof -
    from mg that have l: "literal (heap w) ins n row b (inputs (heap w g') ! b)"
      and "inputs (heap w g') ! b \<in> set (inputs (heap w g'))"
      by (simp_all add: minterm_gate_def)
    with lits have "inputs (heap w g') ! b < next_ref w" "inputs (heap w g') ! b \<noteq> g" by simp_all
    with literal_frame [OF l fr] show ?thesis by simp
  qed
  with mg same show ?thesis by (simp add: minterm_gate_def)
qed

lemma build_minterm_step:
  assumes bs: "bstate w c K"
    and ins: "\<forall>b < n. map_of (nodes c) (INPUT_id b) = Some (ins ! b)"
    and freshA: "AND_id m \<notin> set K" and freshN: "\<forall>b. NOT_id m b \<notin> set K"
  shows "\<exists>w' c' ys. build_minterm n ins (row, m) (w, c, gs) = (w', c', gs @ [next_ref w]) \<and>
     bstate w' c' (K @ minterm_keys n (row, m)) \<and> nodes c' = nodes c @ ys \<and>
     frame (next_ref w) w w' \<and> map_of (nodes c') (AND_id m) = Some (next_ref w) \<and>
     minterm_gate (heap w') ins n (int row) (next_ref w)"
proof -
  let ?g = "next_ref w"
  obtain w1 g where new: "new_CircuitNode w (AND_id m) AND (startX + 300) (startY + int m * 80) [] = (w1, g)"
    by (cases "new_CircuitNode w (AND_id m) AND (startX + 300) (startY + int m * 80) []")
  note N = new_fields [OF new]
  let ?c1 = "addNode (heap w1) c g"
  from bstate_new [OF bs freshA new key_type_simps(2)]
  have bs1: "bstate w1 ?c1 (K @ [AND_id m])" and n1: "nodes ?c1 = nodes c @ [(AND_id m, g)]"
    by simp_all
  from bstate_lookup_new [OF bs freshA n1]
  have lg: "map_of (nodes ?c1) (AND_id m) = Some ?g"
    and keep: "\<And>k r. map_of (nodes c) k = Some r \<Longrightarrow> map_of (nodes ?c1) k = Some r"
    using N(1) by simp_all
  have ins1: "\<forall>b < n. map_of (nodes ?c1) (INPUT_id b) = Some (ins ! b)"
    using ins keep by simp
  have g0: "inputs (heap w1 ?g) = []" by (rule N(6))
  have fresh1: "\<forall>b. NOT_id m b \<notin> set (K @ [AND_id m])"
    using freshN by (simp add: id_families)
  from wire_bits [OF bs1 lg g0 ins1 fresh1 le_refl, of "int row"]
  obtain w2 c2 ys where f: "fold (wire_bit n ins (int row) m ?g) [0..<n] (w1, ?c1) = (w2, c2)"
    and bs2: "bstate w2 c2 ((K @ [AND_id m]) @ map (NOT_id m) (filter (\<lambda>b. \<not> direct n (int row) b) [0..<n]))"
    and pre: "nodes c2 = nodes ?c1 @ ys" and fr: "frame ?g w1 w2"
    and len: "length (inputs (heap w2 ?g)) = n"
    and lits: "\<forall>b < n. literal (heap w2) ins n (int row) b (inputs (heap w2 ?g) ! b)"
    by blast
  have lg2: "map_of (nodes c2) (AND_id m) = Some ?g" by (rule map_of_prefix [OF pre lg])
  have 1: "build_minterm n ins (row, m) (w, c, gs) = (w2, c2, gs @ [?g])"
    using new f N(1) by (simp add: build_minterm_def new_AndGate_def)
  have 2: "bstate w2 c2 (K @ minterm_keys n (row, m))"
    using bs2 by (simp add: minterm_keys_def)
  have 3: "nodes c2 = nodes c @ ((AND_id m, g) # ys)" using pre n1 by simp
  have 4: "frame ?g w w2" by (rule frame_trans [OF frame_new [OF new] fr])
  have "type (heap w2 ?g) = AND" using bstate_lookup(4) [OF bs2 lg2] by (simp add: key_type_simps)
  with len lits have 5: "minterm_gate (heap w2) ins n (int row) ?g" by (simp add: minterm_gate_def)
  from 1 2 3 4 lg2 5 show ?thesis by blast
qed

lemma minterm_loop:
  assumes bs1: "bstate w1 c1 (input_keys n)"
    and ins: "\<forall>b < n. map_of (nodes c1) (INPUT_id b) = Some (ins ! b)"
  shows "\<exists>w c gs ys. fold (build_minterm n ins) (zip ms [0..<length ms]) (w1, c1, []) = (w, c, gs) \<and>
     bstate w c (input_keys n @ gate_keys n ms) \<and> nodes c = nodes c1 @ ys \<and>
     length gs = length ms \<and>
     (\<forall>j < length ms. map_of (nodes c) (AND_id j) = Some (gs ! j) \<and>
         minterm_gate (heap w) ins n (int (ms ! j)) (gs ! j))"
proof (induction ms rule: rev_induct)
  case Nil
  show ?case using bs1 by (simp add: gate_keys_def)
next
  case (snoc row ms)
  let ?m = "length ms"
  let ?K = "input_keys n @ gate_keys n ms"
  from snoc obtain w c gs ys
    where f: "fold (build_minterm n ins) (zip ms [0..<?m]) (w1, c1, []) = (w, c, gs)"
      and bs: "bstate w c ?K" and pre: "nodes c = nodes c1 @ ys" and len: "length gs = ?m"
      and gates: "\<forall>j < ?m. map_of (nodes c) (AND_id j) = Some (gs ! j) \<and>
         minterm_gate (heap w) ins n (int (ms ! j)) (gs ! j)"
    by blast
  have insc: "\<forall>b < n. map_of (nodes c) (INPUT_id b) = Some (ins ! b)"
    using ins by (auto intro: map_of_prefix [OF pre])
  have freshA: "AND_id ?m \<notin> set ?K"
    by (auto simp: input_keys_mem AND_id_inj id_families dest!: gate_keys_mem)
  have freshN: "\<forall>b. NOT_id ?m b \<notin> set ?K"
    by (auto simp: input_keys_mem NOT_id_inj id_families dest!: gate_keys_mem)
  from build_minterm_step [OF bs insc freshA freshN, of row gs]
  obtain w' c' ys' where st: "build_minterm n ins (row, ?m) (w, c, gs) = (w', c', gs @ [next_ref w])"
    and bs': "bstate w' c' (?K @ minterm_keys n (row, ?m))" and pre': "nodes c' = nodes c @ ys'"
    and fr: "frame (next_ref w) w w'"
    and lg: "map_of (nodes c') (AND_id ?m) = Some (next_ref w)"
    and mg: "minterm_gate (heap w') ins n (int row) (next_ref w)" by blast
  have z: "zip (ms @ [row]) [0..<length (ms @ [row])] = zip ms [0..<?m] @ [(row, ?m)]" by simp
  have 1: "fold (build_minterm n ins) (zip (ms @ [row]) [0..<length (ms @ [row])]) (w1, c1, [])
      = (w', c', gs @ [next_ref w])"
    unfolding z using f st by simp
  have 2: "bstate w' c' (input_keys n @ gate_keys n (ms @ [row]))"
    using bs' by (simp add: gate_keys_snoc)
  have 3: "nodes c' = nodes c1 @ (ys @ ys')" using pre pre' by simp
  have 4: "length (gs @ [next_ref w]) = length (ms @ [row])" using len by simp
  have 5: "\<forall>j < length (ms @ [row]). map_of (nodes c') (AND_id j) = Some ((gs @ [next_ref w]) ! j) \<and>
         minterm_gate (heap w') ins n (int ((ms @ [row]) ! j)) ((gs @ [next_ref w]) ! j)"
  proof (intro allI impI)
    fix j assume j: "j < length (ms @ [row])"
    show "map_of (nodes c') (AND_id j) = Some ((gs @ [next_ref w]) ! j) \<and>
         minterm_gate (heap w') ins n (int ((ms @ [row]) ! j)) ((gs @ [next_ref w]) ! j)"
    proof (cases "j < ?m")
      case True
      with gates have l: "map_of (nodes c) (AND_id j) = Some (gs ! j)"
        and g: "minterm_gate (heap w) ins n (int (ms ! j)) (gs ! j)" by simp_all
      note G = bstate_lookup [OF bs l]
      from bs G(1) have "set (inputs (heap w (gs ! j))) \<subseteq> set (node_refs c)"
        by (simp add: bstate_def wellformed_def)
      with bs have "\<forall>l \<in> set (inputs (heap w (gs ! j))). l < next_ref w \<and> l \<noteq> next_ref w"
        by (auto simp: bstate_def)
      from minterm_gate_frame [OF g fr G(2) _ this] G(2)
      have "minterm_gate (heap w') ins n (int (ms ! j)) (gs ! j)" by simp
      with True len map_of_prefix [OF pre' l] show ?thesis by (simp add: nth_append)
    next
      case False
      with j have "j = ?m" by simp
      with lg mg len show ?thesis by (simp add: nth_append)
    qed
  qed
  from 1 2 3 4 5 show ?case by blast
qed

definition all_gates :: "world \<Rightarrow> Circuit \<Rightarrow> ref list \<Rightarrow> nat \<Rightarrow> nat list \<Rightarrow> ref list \<Rightarrow> bool" where
  "all_gates w c ins n ms gs \<longleftrightarrow>
     length gs = length ms \<and>
     (\<forall>j < length ms. map_of (nodes c) (AND_id j) = Some (gs ! j) \<and>
         minterm_gate (heap w) ins n (int (ms ! j)) (gs ! j))"

lemma all_gates_frame:
  assumes bs: "bstate w c K" and ag: "all_gates w c ins n ms gs" and fr: "frame g w w'"
    and g: "g \<notin> set (node_refs c)" and pre: "nodes c' = nodes c @ ys"
  shows "all_gates w' c' ins n ms gs"
  unfolding all_gates_def
proof (intro conjI allI impI)
  show "length gs = length ms" using ag by (simp add: all_gates_def)
next
  fix j assume j: "j < length ms"
  with ag have l: "map_of (nodes c) (AND_id j) = Some (gs ! j)"
    and mg: "minterm_gate (heap w) ins n (int (ms ! j)) (gs ! j)" by (simp_all add: all_gates_def)
  show "map_of (nodes c') (AND_id j) = Some (gs ! j)" by (rule map_of_prefix [OF pre l])
  note G = bstate_lookup [OF bs l]
  from bs G(1) have sub: "set (inputs (heap w (gs ! j))) \<subseteq> set (node_refs c)"
    by (simp add: bstate_def wellformed_def)
  with bs g have "\<forall>l \<in> set (inputs (heap w (gs ! j))). l < next_ref w \<and> l \<noteq> g"
    by (auto simp: bstate_def)
  moreover from G(1) g have "gs ! j \<noteq> g" by auto
  ultimately show "minterm_gate (heap w') ins n (int (ms ! j)) (gs ! j)"
    using minterm_gate_frame [OF mg fr G(2)] by simp
qed

lemma or_connect:
  assumes bs: "bstate w c K"
    and lo: "map_of (nodes c) ''OR_FINAL'' = Some org"
    and o0: "inputs (heap w org) = []"
    and gl: "\<forall>j < length gs. map_of (nodes c) (AND_id j) = Some (gs ! j)"
  shows "j \<le> length gs \<Longrightarrow>
    bstate (w\<lparr>heap := fold (\<lambda>g h. addConnection h c (id_n (h g)) (id_n (h org))) (take j gs) (heap w)\<rparr>) c K \<and>
    inputs (fold (\<lambda>g h. addConnection h c (id_n (h g)) (id_n (h org))) (take j gs) (heap w) org) = take j gs \<and>
    frame org w (w\<lparr>heap := fold (\<lambda>g h. addConnection h c (id_n (h g)) (id_n (h org))) (take j gs) (heap w)\<rparr>)"
proof (induction j)
  case 0
  show ?case using bs o0 by (simp add: frame_def)
next
  case (Suc j)
  let ?f = "\<lambda>g h. addConnection h c (id_n (h g)) (id_n (h org))"
  let ?h = "fold ?f (take j gs) (heap w)"
  let ?w = "w\<lparr>heap := ?h\<rparr>"
  from Suc have j: "j < length gs" by simp
  from Suc have bs': "bstate ?w c K" and io: "inputs (?h org) = take j gs" and fr: "frame org w ?w"
    by simp_all
  from gl j have lj: "map_of (nodes c) (AND_id j) = Some (gs ! j)" by simp
  note G = bstate_lookup [OF bs' lj] and O = bstate_lookup [OF bs' lo]
  have ids: "\<And>i. i < length gs \<Longrightarrow> id_n (?h (gs ! i)) = AND_id i"
    using bstate_lookup(3) [OF bs'] gl by simp
  have notin: "gs ! j \<notin> set (take j gs)"
  proof
    assume "gs ! j \<in> set (take j gs)"
    then obtain i where i: "i < j" "gs ! i = gs ! j" using j by (auto simp: in_set_conv_nth)
    with ids [of i] ids [of j] j have "AND_id i = AND_id j" by simp
    with i show False by (simp add: AND_id_inj)
  qed
  have step: "?f (gs ! j) ?h = addInput ?h org (gs ! j)"
    using G(3) O(3) by (simp add: connect_eq [OF lj lo])
  have "layer (type (heap ?w (gs ! j))) < layer (type (heap ?w org))"
    using G(4) O(4) by (simp add: key_type_simps layer_def)
  from bstate_addInput [OF bs' G(1) O(1) this]
  have bs'': "bstate (w\<lparr>heap := addInput ?h org (gs ! j)\<rparr>) c K" by simp
  have t: "take (Suc j) gs = take j gs @ [gs ! j]" using j by (simp add: take_Suc_conv_app_nth)
  have f: "fold ?f (take (Suc j) gs) (heap w) = addInput ?h org (gs ! j)"
    unfolding t using step by simp
  have in': "inputs (addInput ?h org (gs ! j) org) = take (Suc j) gs"
    using notin io by (simp add: addInput_fields t)
  have "frame org ?w (?w\<lparr>heap := addInput (heap ?w) org (gs ! j)\<rparr>)" by (rule frame_addInput)
  with fr have fr': "frame org w (w\<lparr>heap := addInput ?h org (gs ! j)\<rparr>)"
    by (auto dest: frame_trans)
  from bs'' in' fr' show ?case unfolding f by simp
qed

lemma input_keys_distinct: "distinct (input_keys n)"
  by (simp add: input_keys_def distinct_map inj_on_def INPUT_id_inj)

lemma input_lookup:
  assumes "nodes c = zip (input_keys n) ins" "length ins = n" "b < n"
  shows "map_of (nodes c) (INPUT_id b) = Some (ins ! b)"
proof -
  have l: "length (input_keys n) = length ins" using assms by (simp add: input_keys_def)
  from assms have b: "b < length ins" by simp
  have "map_of (zip (input_keys n) ins) (input_keys n ! b) = Some (ins ! b)"
    by (rule map_of_zip_nth [OF l input_keys_distinct b])
  moreover have "input_keys n ! b = INPUT_id b" using assms by (simp add: input_keys_def)
  ultimately show ?thesis using assms by simp
qed

definition synthesized ::
  "world \<Rightarrow> Circuit \<Rightarrow> nat \<Rightarrow> nat list \<Rightarrow> ref list \<Rightarrow> ref list \<Rightarrow> ref \<Rightarrow> ref \<Rightarrow> bool" where
  "synthesized w c n ms ins gs org out \<longleftrightarrow>
     bstate w c (input_keys n @ gate_keys n ms @ [''OR_FINAL'', ''OUTPUT'']) \<and>
     length ins = n \<and> (\<exists>ys. nodes c = zip (input_keys n) ins @ ys) \<and>
     all_gates w c ins n ms gs \<and>
     map_of (nodes c) ''OR_FINAL'' = Some org \<and> inputs (heap w org) = gs \<and>
     map_of (nodes c) ''OUTPUT'' = Some out \<and> inputs (heap w out) = [org]"

lemma generateCircuit_constant:
  assumes "minterms_of outs = []"
  shows "\<exists>w c ins out. generateCircuit w0 n outs = (w, c) \<and>
     bstate w c (input_keys n @ [''OUTPUT_FINAL'']) \<and> length ins = n \<and>
     nodes c = zip (input_keys n) ins @ [(''OUTPUT_FINAL'', out)] \<and> unwired (heap w) c"
proof -
  from create_inputs [of n w0]
  obtain w1 c1 ins where f: "fold create_input [0..<n] (w0, \<lparr>nodes = []\<rparr>, []) = (w1, c1, ins)"
    and bs1: "bstate w1 c1 (input_keys n)" and len: "length ins = n"
    and n1: "nodes c1 = zip (input_keys n) ins" and u1: "unwired (heap w1) c1" by blast
  obtain w2 out where new: "new_CircuitNode w1 ''OUTPUT_FINAL'' OUTPUT (startX + 600) (startY + 200) [] = (w2, out)"
    by (cases "new_CircuitNode w1 ''OUTPUT_FINAL'' OUTPUT (startX + 600) (startY + 200) []")
  have fresh: "''OUTPUT_FINAL'' \<notin> set (input_keys n)"
    by (auto simp: input_keys_mem id_families)
  let ?c = "addNode (heap w2) c1 out"
  from bstate_new [OF bs1 fresh new key_type_simps(6)]
  have bs2: "bstate w2 ?c (input_keys n @ [''OUTPUT_FINAL''])"
    and n2: "nodes ?c = nodes c1 @ [(''OUTPUT_FINAL'', out)]" by simp_all
  have "generateCircuit w0 n outs = (w2, ?c)"
    using f new assms by (simp add: generateCircuit_def new_OutputNode_def Let_def)
  with bs2 len n1 n2 unwired_new [OF bs1 fresh new u1] show ?thesis by auto
qed

lemma generateCircuit_minterms:
  assumes ne: "minterms_of outs \<noteq> []"
  shows "\<exists>w c ins gs org out. generateCircuit w0 n outs = (w, c) \<and>
     synthesized w c n (minterms_of outs) ins gs org out"
proof -
  let ?ms = "minterms_of outs"
  let ?K2 = "input_keys n @ gate_keys n ?ms"
  from create_inputs [of n w0]
  obtain w1 c1 ins where f1: "fold create_input [0..<n] (w0, \<lparr>nodes = []\<rparr>, []) = (w1, c1, ins)"
    and bs1: "bstate w1 c1 (input_keys n)" and len: "length ins = n"
    and n1: "nodes c1 = zip (input_keys n) ins" by blast
  have ins1: "\<forall>b < n. map_of (nodes c1) (INPUT_id b) = Some (ins ! b)"
    using input_lookup [OF n1 len] by simp
  from minterm_loop [OF bs1 ins1, of ?ms]
  obtain w2 c2 gs ys2 where f2: "fold (build_minterm n ins) (zip ?ms [0..<length ?ms]) (w1, c1, []) = (w2, c2, gs)"
    and bs2: "bstate w2 c2 ?K2" and pre2: "nodes c2 = nodes c1 @ ys2"
    and ag2: "all_gates w2 c2 ins n ?ms gs"
    unfolding all_gates_def by blast
  \<comment> \<open>the OR gate\<close>
  obtain w3 org where newo: "new_CircuitNode w2 ''OR_FINAL'' OR (startX + 500) (startY + 200) [] = (w3, org)"
    by (cases "new_CircuitNode w2 ''OR_FINAL'' OR (startX + 500) (startY + 200) []")
  note NO = new_fields [OF newo]
  have fresh3: "''OR_FINAL'' \<notin> set ?K2"
    by (auto simp: input_keys_mem id_families dest!: gate_keys_mem)
  let ?c3 = "addNode (heap w3) c2 org"
  from bstate_new [OF bs2 fresh3 newo key_type_simps(4)]
  have bs3: "bstate w3 ?c3 (?K2 @ [''OR_FINAL''])" and n3: "nodes ?c3 = nodes c2 @ [(''OR_FINAL'', org)]"
    by simp_all
  from bs2 NO(1) have org_new: "org \<notin> set (node_refs c2)" by (auto simp: bstate_def)
  have ag3: "all_gates w3 ?c3 ins n ?ms gs"
    by (rule all_gates_frame [OF bs2 ag2 frame_new [OF newo] org_new n3])
  have lo3: "map_of (nodes ?c3) ''OR_FINAL'' = Some org"
    by (rule bstate_lookup_new(1) [OF bs2 fresh3 n3])
  have o0: "inputs (heap w3 org) = []" using NO by simp
  have gl3: "\<forall>j < length gs. map_of (nodes ?c3) (AND_id j) = Some (gs ! j)"
    using ag3 by (simp add: all_gates_def)
  let ?h4 = "fold (\<lambda>g h. addConnection h ?c3 (id_n (h g)) (id_n (h org))) gs (heap w3)"
  let ?w4 = "w3\<lparr>heap := ?h4\<rparr>"
  from or_connect [OF bs3 lo3 o0 gl3 le_refl]
  have bs4: "bstate ?w4 ?c3 (?K2 @ [''OR_FINAL''])" and io4: "inputs (?h4 org) = gs"
    and fr4: "frame org w3 ?w4" by simp_all
  from bs3 have "org \<in> set (node_refs ?c3)" using bstate_lookup(1) [OF bs3 lo3] by simp
  have NO3: "org < next_ref w3" using NO by simp
  have ag4: "all_gates ?w4 ?c3 ins n ?ms gs"
  proof -
    have "frame org w2 ?w4" by (rule frame_trans [OF frame_new [OF newo] fr4])
    from all_gates_frame [OF bs2 ag2 this org_new n3] show ?thesis .
  qed
  \<comment> \<open>the final output\<close>
  obtain w5 out where newf: "new_CircuitNode ?w4 ''OUTPUT'' OUTPUT (startX + 600) (y_n (?h4 org)) [] = (w5, out)"
    by (cases "new_CircuitNode ?w4 ''OUTPUT'' OUTPUT (startX + 600) (y_n (?h4 org)) []")
  note NF = new_fields [OF newf]
  have fresh5: "''OUTPUT'' \<notin> set (?K2 @ [''OR_FINAL''])"
    by (auto simp: input_keys_mem id_families dest!: gate_keys_mem)
  let ?c5 = "addNode (heap w5) ?c3 out"
  from bstate_new [OF bs4 fresh5 newf key_type_simps(5)]
  have bs5: "bstate w5 ?c5 ((?K2 @ [''OR_FINAL'']) @ [''OUTPUT''])"
    and n5: "nodes ?c5 = nodes ?c3 @ [(''OUTPUT'', out)]" by simp_all
  from bstate_lookup_new [OF bs4 fresh5 n5] lo3
  have lf5: "map_of (nodes ?c5) ''OUTPUT'' = Some out" and lo5: "map_of (nodes ?c5) ''OR_FINAL'' = Some org"
    by simp_all
  note O5 = bstate_lookup [OF bs5 lo5] and F5 = bstate_lookup [OF bs5 lf5]
  let ?h6 = "addInput (heap w5) out org"
  let ?w6 = "w5\<lparr>heap := ?h6\<rparr>"
  have c6: "addConnection (heap w5) ?c5 (id_n (heap w5 org)) (id_n (heap w5 out)) = ?h6"
    by (simp add: O5(3) F5(3) connect_eq [OF lo5 lf5])
  have "layer (type (heap w5 org)) < layer (type (heap w5 out))"
    by (simp add: O5(4) F5(4) key_type_simps layer_def)
  from bstate_addInput [OF bs5 O5(1) F5(1) this]
  have bs6: "bstate ?w6 ?c5 (input_keys n @ gate_keys n ?ms @ [''OR_FINAL'', ''OUTPUT''])" by simp
  have out_eq: "out = next_ref ?w4" using NF(1) by simp
  from bs4 out_eq have out_new: "out \<notin> set (node_refs ?c3)" by (auto simp: bstate_def)
  have fr6: "frame out ?w4 ?w6"
    using frame_trans [OF frame_new [OF newf] frame_addInput [of out w5 org]] by simp
  have ag6: "all_gates ?w6 ?c5 ins n ?ms gs"
    by (rule all_gates_frame [OF bs4 ag4 fr6 out_new n5])
  from bstate_lookup(1,2) [OF bs4 lo3] out_new have "org < next_ref ?w4" "org \<noteq> out" by auto
  with fr6 io4 have io6: "inputs (?h6 org) = gs" by (simp add: frame_def)
  have if6: "inputs (?h6 out) = [org]" using NF out_eq by (simp add: addInput_fields)
  have n6: "nodes ?c5 = zip (input_keys n) ins @ (ys2 @ [(''OR_FINAL'', org), (''OUTPUT'', out)])"
    using n5 n3 pre2 n1 by simp
  have gen: "generateCircuit w0 n outs = (?w6, ?c5)"
    using f1 f2 newo newf ne c6
    by (simp add: generateCircuit_def Let_def new_OrGate_def new_OutputNode_def)
  have "synthesized ?w6 ?c5 n ?ms ins gs org out"
    unfolding synthesized_def using bs6 len n6 ag6 lo5 io6 lf5 if6 by auto
  with gen show ?thesis by blast
qed

lemma getNodesByType_keys:
  assumes "bstate w c K"
  shows "getNodesByType (heap w) c T = map snd (filter (\<lambda>(k, r). key_type k = T) (nodes c))"
proof -
  from assms have "\<forall>(k, r) \<in> set (nodes c). type (heap w r) = key_type k" by (simp add: bstate_def)
  then have "filter (\<lambda>(k, r). type (heap w r) = T) (nodes c) = filter (\<lambda>(k, r). key_type k = T) (nodes c)"
    by (intro filter_cong) auto
  then show ?thesis
    by (simp add: getNodesByType_def filter_map comp_def case_prod_unfold)
qed

lemma count_by_keys:
  assumes "bstate w c K"
  shows "length (getNodesByType (heap w) c T) = length (filter (\<lambda>k. key_type k = T) K)"
proof -
  from assms have K: "K = map fst (nodes c)" by (simp add: bstate_def)
  show ?thesis
    unfolding getNodesByType_keys [OF assms] K
    by (simp add: filter_map comp_def case_prod_unfold)
qed

definition zeros :: "nat \<Rightarrow> nat \<Rightarrow> nat" where
  "zeros n row = length (filter (\<lambda>b. \<not> direct n (int row) b) [0..<n])"

lemma filter_input_keys:
  "filter (\<lambda>k. key_type k = T) (input_keys n) = (if T = INPUT then input_keys n else [])"
  by (auto simp: input_keys_def key_type_simps filter_empty_conv)

lemma count_minterm_keys:
  "length (filter (\<lambda>k. key_type k = T) (minterm_keys n (row, m))) =
     (if T = AND then 1 else if T = NOT then zeros n row else 0)"
proof -
  have "filter (\<lambda>k. key_type k = T) (map (NOT_id m) xs) = (if T = NOT then map (NOT_id m) xs else [])" for xs
    by (induction xs) (auto simp: key_type_simps)
  then show ?thesis by (auto simp: minterm_keys_def key_type_simps zeros_def)
qed

lemma count_gate_keys:
  "length (filter (\<lambda>k. key_type k = T) (gate_keys n ms)) =
     (if T = AND then length ms else if T = NOT then sum_list (map (zeros n) ms) else 0)"
proof (induction ms rule: rev_induct)
  case Nil
  show ?case by (simp add: gate_keys_def)
next
  case (snoc row ms)
  then show ?case by (simp add: gate_keys_snoc count_minterm_keys)
qed

lemma length_input_keys: "length (input_keys n) = n"
  by (simp add: input_keys_def)

lemma minterms_nonempty: "minterms_of outs \<noteq> [] \<longleftrightarrow> True \<in> set outs"
  by (auto simp: minterms_of_def filter_empty_conv in_set_conv_nth)

lemma minterms_count: "length (minterms_of outs) = count_list outs True"
proof -
  have "filter (\<lambda>idx. outs ! idx) [0..<length outs] = filter (\<lambda>idx. outs ! idx = True) [0..<length outs]"
    by simp
  have "length (filter (\<lambda>i. xs ! i) [0..<length xs]) = count_list xs True" for xs :: "bool list"
  proof (induction xs rule: rev_induct)
    case Nil
    show ?case by simp
  next
    case (snoc x xs)
    have "filter (\<lambda>i. (xs @ [x]) ! i) [0..<length xs] = filter (\<lambda>i. xs ! i) [0..<length xs]"
      by (intro filter_cong) (simp_all add: nth_append)
    with snoc show ?case by simp
  qed
  then show ?thesis by (simp add: minterms_of_def)
qed

lemma zeros_le: "zeros n row \<le> n"
  using length_filter_le [of "\<lambda>b. \<not> direct n (int row) b" "[0..<n]"] by (simp add: zeros_def)

lemma sum_zeros_le: "sum_list (map (zeros n) ms) \<le> length ms * n"
  by (induction ms) (auto intro: add_mono zeros_le)

lemma direct_bit: "n \<le> 32 \<Longrightarrow> b < n \<Longrightarrow> direct n (int row) b = bit row (n - 1 - b)"
  by (simp add: direct_def bit_of_nat_iff_bit)

lemma zeros_bits:
  assumes "n \<le> 32"
  shows "zeros n row = length (filter (\<lambda>b. \<not> bit row (n - 1 - b)) [0..<n])"
proof -
  have "filter (\<lambda>b. \<not> direct n (int row) b) [0..<n] = filter (\<lambda>b. \<not> bit row (n - 1 - b)) [0..<n]"
    using assms by (intro filter_cong) (simp_all add: direct_bit)
  then show ?thesis by (simp add: zeros_def)
qed

lemma table_run_acyclic:
  assumes "wellformed h c" "acyclic (edges h c)"
  shows "\<exists>h' rows. table_run h c = (h', Inr rows)"
  using table_loop_acyclic [OF assms refl, of "getNodesByType h c OUTPUT"
      "map int [0..<nat (js_shl 1 (length (getNodesByType h c INPUT)))]" "[]"]
  by (auto simp: table_run_def Let_def)

lemma generateCircuit_bstate: "\<exists>w c K. generateCircuit w0 n outs = (w, c) \<and> bstate w c K"
proof (cases "minterms_of outs = []")
  case True
  from generateCircuit_constant [OF True, of w0 n] show ?thesis by blast
next
  case False
  from generateCircuit_minterms [OF False, of w0 n] show ?thesis
    unfolding synthesized_def by blast
qed

lemma bstate_runs:
  assumes bs: "bstate w c K" and ss: "same_structure (heap w) h"
  shows "wellformed h c" "acyclic (edges h c)" "snd (evaluate h c) = Inr ()"
    "snd (table_run h c) \<noteq> Inl CycleDetected"
proof -
  from bs have wf: "wellformed (heap w) c" and ac: "acyclic (edges (heap w) c)"
    by (simp_all add: bstate_def layered_acyclic)
  show wf': "wellformed h c" using wf by (simp add: same_structure_wellformed [OF ss])
  show ac': "acyclic (edges h c)" using ac by (simp add: same_structure_edges [OF ss])
  from evaluate_acyclic [OF wf' ac'] show "snd (evaluate h c) = Inr ()" by auto
  from table_run_acyclic [OF wf' ac'] show "snd (table_run h c) \<noteq> Inl CycleDetected" by auto
qed

lemma generateCircuit_acyclic:
  "case generateCircuit w0 n outs of (w, c) \<Rightarrow>
     wellformed (heap w) c \<and> acyclic (edges (heap w) c) \<and>
     (\<forall>h. same_structure (heap w) h \<longrightarrow>
        snd (evaluate h c) = Inr () \<and> snd (table_run h c) \<noteq> Inl CycleDetected)"
proof -
  from generateCircuit_bstate [of w0 n outs]
  obtain w c K where g: "generateCircuit w0 n outs = (w, c)" and bs: "bstate w c K" by blast
  from bstate_runs [OF bs] bstate_runs(1,2) [OF bs same_structure_refl] g
  show ?thesis by simp
qed

lemma and_key:
  assumes "k \<in> set (input_keys n @ gate_keys n ms @ [''OR_FINAL'', ''OUTPUT''])" "key_type k = AND"
  shows "\<exists>j < length ms. k = AND_id j"
proof -
  from assms(1) consider "k \<in> set (input_keys n)" | "k \<in> set (gate_keys n ms)"
    | "k = ''OR_FINAL''" | "k = ''OUTPUT''" by auto
  then show ?thesis
  proof cases
    case 1
    with assms(2) show ?thesis by (auto simp: input_keys_mem key_type_simps)
  next
    case 2
    from gate_keys_mem [OF 2] assms(2) show ?thesis by (auto simp: key_type_simps)
  next
    case 3
    with assms(2) show ?thesis by (simp add: key_type_simps)
  next
    case 4
    with assms(2) show ?thesis by (simp add: key_type_simps)
  qed
qed

lemma generateCircuit_counts:
  assumes t: "True \<in> set outs" and n: "n \<le> 32"
  shows "case generateCircuit w0 n outs of (w, c) \<Rightarrow>
     length (getNodesByType (heap w) c AND) = count_list outs True \<and>
     length (getNodesByType (heap w) c OR) = 1 \<and>
     length (getNodesByType (heap w) c OUTPUT) = 1 \<and>
     length (getNodesByType (heap w) c INPUT) = n \<and>
     length (getNodesByType (heap w) c NOT) =
       sum_list (map (\<lambda>row. length (filter (\<lambda>b. \<not> bit row (n - 1 - b)) [0..<n])) (minterms_of outs)) \<and>
     length (getNodesByType (heap w) c NOT) \<le> count_list outs True * n \<and>
     list_all (\<lambda>g. length (inputs (heap w g)) = n) (getNodesByType (heap w) c AND)"
proof -
  let ?ms = "minterms_of outs"
  let ?K = "input_keys n @ gate_keys n ?ms @ [''OR_FINAL'', ''OUTPUT'']"
  from t have ne: "?ms \<noteq> []" by (simp add: minterms_nonempty)
  from generateCircuit_minterms [OF ne, of w0 n]
  obtain w c ins gs org out where g: "generateCircuit w0 n outs = (w, c)"
    and syn: "synthesized w c n ?ms ins gs org out" by blast
  from syn have bs: "bstate w c ?K" and ag: "all_gates w c ins n ?ms gs"
    by (simp_all add: synthesized_def)
  have cnt: "length (getNodesByType (heap w) c T) =
      (if T = INPUT then n else 0) +
      (if T = AND then length ?ms else if T = NOT then sum_list (map (zeros n) ?ms) else 0) +
      (if T = OR then 1 else 0) + (if T = OUTPUT then 1 else 0)" for T
    unfolding count_by_keys [OF bs]
    by (simp add: filter_input_keys count_gate_keys length_input_keys key_type_simps)
  have zf: "zeros n = (\<lambda>row. length (filter (\<lambda>b. \<not> bit row (n - 1 - b)) [0..<n]))"
    by (rule ext) (rule zeros_bits [OF n])
  have ands: "list_all (\<lambda>g. length (inputs (heap w g)) = n) (getNodesByType (heap w) c AND)"
    unfolding list_all_iff
  proof
    fix r assume "r \<in> set (getNodesByType (heap w) c AND)"
    then obtain k where kr: "(k, r) \<in> set (nodes c)" and kt: "key_type k = AND"
      unfolding getNodesByType_keys [OF bs] by auto
    from bs have K: "map fst (nodes c) = ?K" by (simp add: bstate_def)
    from bs have "wellformed (heap w) c" by (simp add: bstate_def)
    then have d: "distinct (map fst (nodes c))" by (simp add: wellformed_def)
    from kr have "k \<in> set (map fst (nodes c))" by force
    with K have "k \<in> set ?K" by simp
    from and_key [OF this kt] obtain j where j: "j < length ?ms" "k = AND_id j" by blast
    from d kr have "map_of (nodes c) k = Some r" by (rule map_of_is_SomeI)
    moreover from ag j have "map_of (nodes c) (AND_id j) = Some (gs ! j)"
      and mg: "minterm_gate (heap w) ins n (int (?ms ! j)) (gs ! j)"
      by (simp_all add: all_gates_def)
    ultimately have "r = gs ! j" using j by simp
    with mg show "length (inputs (heap w r)) = n" by (simp add: minterm_gate_def)
  qed
  have le: "sum_list (map (zeros n) ?ms) \<le> count_list outs True * n"
    using sum_zeros_le [of n ?ms] by (simp add: minterms_count)
  have c1: "length (getNodesByType (heap w) c AND) = count_list outs True"
    and c2: "length (getNodesByType (heap w) c OR) = 1"
    and c3: "length (getNodesByType (heap w) c OUTPUT) = 1"
    and c4: "length (getNodesByType (heap w) c INPUT) = n"
    and c5: "length (getNodesByType (heap w) c NOT) = sum_list (map (zeros n) ?ms)"
    by (simp_all add: cnt minterms_count)
  from c5 le have c6: "length (getNodesByType (heap w) c NOT) \<le> count_list outs True * n" by simp
  note c5' = c5 [unfolded zf]
  from c1 c2 c3 c4 c5' c6 ands show ?thesis
    unfolding g by (simp only: prod.case simp_thms)
qed

lemma generateCircuit_constant_false:
  assumes "True \<notin> set outs"
  shows "case generateCircuit w0 n outs of (w, c) \<Rightarrow>
     map fst (nodes c) = input_keys n @ [''OUTPUT_FINAL''] \<and>
     map (\<lambda>(k, r). type (heap w r)) (nodes c) = replicate n INPUT @ [OUTPUT] \<and>
     unwired (heap w) c \<and>
     (\<forall>h. same_structure (heap w) h \<longrightarrow>
        (case evaluate h c of (h', res) \<Rightarrow>
           res = Inr () \<and> length (getNodesByType h' c OUTPUT) = 1 \<and>
           list_all (\<lambda>out. \<not> value_n (h' out)) (getNodesByType h' c OUTPUT)))"
proof -
  from assms have e: "minterms_of outs = []" using minterms_nonempty [of outs] by simp
  let ?K = "input_keys n @ [''OUTPUT_FINAL'']"
  from generateCircuit_constant [OF e, of w0 n]
  obtain w c ins out where g: "generateCircuit w0 n outs = (w, c)"
    and bs: "bstate w c ?K" and len: "length ins = n"
    and nodes: "nodes c = zip (input_keys n) ins @ [(''OUTPUT_FINAL'', out)]"
    and u: "unwired (heap w) c" by blast
  from bs have 1: "map fst (nodes c) = ?K" by (simp add: bstate_def)
  from bs have "map (\<lambda>(k, r). type (heap w r)) (nodes c) = map (\<lambda>(k, r). key_type k) (nodes c)"
    by (intro map_cong) (auto simp: bstate_def)
  also have "\<dots> = map key_type (map fst (nodes c))" by (simp add: comp_def case_prod_unfold)
  also have "\<dots> = replicate n INPUT @ [OUTPUT]"
    unfolding 1 by (simp add: input_keys_def key_type_simps comp_def map_replicate_const)
  finally have 2: "map (\<lambda>(k, r). type (heap w r)) (nodes c) = replicate n INPUT @ [OUTPUT]" .
  have 4: "case evaluate h c of (h', res) \<Rightarrow>
           res = Inr () \<and> length (getNodesByType h' c OUTPUT) = 1 \<and>
           list_all (\<lambda>out. \<not> value_n (h' out)) (getNodesByType h' c OUTPUT)"
    if ss: "same_structure (heap w) h" for h
  proof -
    note R = bstate_runs [OF bs ss]
    from evaluate_acyclic [OF R(1,2)]
    obtain h' where ev: "evaluate h c = (h', Inr ())" and ss': "same_structure h h'"
      and st: "settled h' (node_refs c)" by blast
    have ss2: "same_structure (heap w) h'" by (rule same_structure_trans [OF ss ss'])
    have outs_eq: "getNodesByType h' c OUTPUT = getNodesByType (heap w) c OUTPUT"
      by (rule same_structure_getNodesByType [OF ss2])
    have cnt: "length (getNodesByType (heap w) c OUTPUT) = 1"
      unfolding count_by_keys [OF bs] by (simp add: filter_input_keys key_type_simps)
    have "\<not> value_n (h' r)" if r: "r \<in> set (getNodesByType (heap w) c OUTPUT)" for r
    proof -
      from r have rN: "r \<in> set (node_refs c)" and ty: "type (heap w r) = OUTPUT"
        by (auto simp: getNodesByType_def node_refs_def)
      from u rN have "inputs (heap w r) = []" by (simp add: unwired_def)
      then have i: "inputs (h' r) = []" and t: "type (h' r) = OUTPUT"
        using ty by (simp_all add: same_structure_fields [OF ss2])
      from st rN t have "value_n (h' r) = compute h' r" by (simp add: settled_def)
      with i t show ?thesis by (simp add: compute_def OutputNode_compute_def)
    qed
    then have "list_all (\<lambda>out. \<not> value_n (h' out)) (getNodesByType (heap w) c OUTPUT)"
      by (simp add: list_all_iff)
    with ev cnt outs_eq show ?thesis by simp
  qed
  from 1 2 u 4 show ?thesis unfolding g by simp
qed

section \<open>Claims about the synthesis engine\<close>

definition example_synthesis :: "world \<times> Circuit" where
  "example_synthesis = generateCircuit empty_world 2 [False, True, False, False]"

definition example_constant :: "world \<times> Circuit" where
  "example_constant = generateCircuit empty_world 2 [False, False, False, False]"

text \<open>
  C6. For every input count and every output vector (of length \<open>2 ^ inputCount\<close> or
  not), the circuit that \<open>generateCircuit\<close> returns is well formed and acyclic;
  whatever values its nodes hold, \<open>evaluate\<close> returns normally and the loop of
  \<open>getTruthTable\<close> never reaches the \<open>catch\<close> that returns the empty table.
\<close>

theorem synthesized_acyclic:
  "case generateCircuit w0 n outs of (w, c) \<Rightarrow>
     wellformed (heap w) c \<and> acyclic (edges (heap w) c) \<and>
     (\<forall>h. same_structure (heap w) h \<longrightarrow>
        snd (evaluate h c) = Inr () \<and> snd (table_run h c) \<noteq> Inl CycleDetected)"
  by (rule generateCircuit_acyclic)

theorem synthesized_acyclic_witness:
  "wellformed (heap (fst example_synthesis)) (snd example_synthesis) \<and>
   acyclic (edges (heap (fst example_synthesis)) (snd example_synthesis)) \<and>
   same_structure (heap (fst example_synthesis)) (heap (fst example_synthesis)) \<and>
   snd (evaluate (heap (fst example_synthesis)) (snd example_synthesis)) = Inr () \<and>
   snd (table_run (heap (fst example_synthesis)) (snd example_synthesis)) \<noteq> Inl CycleDetected"
  using synthesized_acyclic [of empty_world 2 "[False, True, False, False]"]
  by (simp add: example_synthesis_def case_prod_unfold same_structure_refl)

text \<open>
  C8. For input count n (at most 32, as every index of a JavaScript array of length
  \<open>2 ^ n\<close> is below \<open>2 ^ 32\<close>) and an output vector with k true entries, k at least
  1, the generated circuit holds exactly k AND gates, one OR gate, one OUTPUT node, n INPUT
  nodes, and one NOT gate for every zero among the n low bits of every minterm index,
  hence at most \<open>k * n\<close>; every AND gate has exactly n inputs.
\<close>

theorem synthesized_gate_counts:
  assumes "True \<in> set outs" and "n \<le> 32"
  shows "case generateCircuit w0 n outs of (w, c) \<Rightarrow>
     length (getNodesByType (heap w) c AND) = count_list outs True \<and>
     length (getNodesByType (heap w) c OR) = 1 \<and>
     length (getNodesByType (heap w) c OUTPUT) = 1 \<and>
     length (getNodesByType (heap w) c INPUT) = n \<and>
     length (getNodesByType (heap w) c NOT) =
       sum_list (map (\<lambda>row. length (filter (\<lambda>b. \<not> bit row (n - 1 - b)) [0..<n])) (minterms_of outs)) \<and>
     length (getNodesByType (heap w) c NOT) \<le> count_list outs True * n \<and>
     list_all (\<lambda>g. length (inputs (heap w g)) = n) (getNodesByType (heap w) c AND)"
  using assms by (rule generateCircuit_counts)

theorem synthesized_gate_counts_witness:
  "True \<in> set [False, True, False, False] \<and> (2::nat) \<le> 32 \<and>
   length (getNodesByType (heap (fst example_synthesis)) (snd example_synthesis) AND) = 1 \<and>
   length (getNodesByType (heap (fst example_synthesis)) (snd example_synthesis) OR) = 1 \<and>
   length (getNodesByType (heap (fst example_synthesis)) (snd example_synthesis) OUTPUT) = 1 \<and>
   length (getNodesByType (heap (fst example_synthesis)) (snd example_synthesis) INPUT) = 2 \<and>
   length (getNodesByType (heap (fst example_synthesis)) (snd example_synthesis) NOT) \<le> 1 * 2 \<and>
   list_all (\<lambda>g. length (inputs (heap (fst example_synthesis) g)) = 2)
     (getNodesByType (heap (fst example_synthesis)) (snd example_synthesis) AND)"
proof -
  have t: "True \<in> set [False, True, False, False]" and n: "(2::nat) \<le> 32" by simp_all
  from synthesized_gate_counts [OF t n, where ?w0.0 = empty_world] t n show ?thesis
    by (simp add: example_synthesis_def case_prod_unfold)
qed

text \<open>
  C9, as the code has it. When the output vector has no true entry, the generated
  circuit consists of the inputCount INPUT nodes, created before the minterms are looked
  at, and one OUTPUT node with the id \<open>OUTPUT_FINAL\<close>; no node has an input or an
  output; and whatever values the nodes hold, evaluating the circuit returns normally
  and leaves false in the OUTPUT node.
\<close>

theorem constant_false_circuit:
  assumes "True \<notin> set outs"
  shows "case generateCircuit w0 n outs of (w, c) \<Rightarrow>
     map fst (nodes c) = input_keys n @ [''OUTPUT_FINAL''] \<and>
     map (\<lambda>(k, r). type (heap w r)) (nodes c) = replicate n INPUT @ [OUTPUT] \<and>
     unwired (heap w) c \<and>
     (\<forall>h. same_structure (heap w) h \<longrightarrow>
        (case evaluate h c of (h', res) \<Rightarrow>
           res = Inr () \<and> length (getNodesByType h' c OUTPUT) = 1 \<and>
           list_all (\<lambda>out. \<not> value_n (h' out)) (getNodesByType h' c OUTPUT)))"
  using assms by (rule generateCircuit_constant_false)

theorem constant_false_circuit_witness:
  "True \<notin> set [False, False, False, False] \<and>
   map fst (nodes (snd example_constant)) = input_keys 2 @ [''OUTPUT_FINAL''] \<and>
   unwired (heap (fst example_constant)) (snd example_constant) \<and>
   same_structure (heap (fst example_constant)) (heap (fst example_constant)) \<and>
   snd (evaluate (heap (fst example_constant)) (snd example_constant)) = Inr () \<and>
   list_all (\<lambda>out. \<not> value_n (fst (evaluate (heap (fst example_constant)) (snd example_constant)) out))
     (getNodesByType (fst (evaluate (heap (fst example_constant)) (snd example_constant)))
        (snd example_constant) OUTPUT)"
proof -
  have t: "True \<notin> set [False, False, False, False]" by simp
  from constant_false_circuit [OF t, where ?w0.0 = empty_world and n = 2] t show ?thesis
    by (simp add: example_constant_def case_prod_unfold same_structure_refl)
qed

text \<open>
  The claim as stated fails for two inputs: the circuit of the constant-false function
  holds three nodes, two of them INPUT nodes, not a single OUTPUT node alone.
\<close>

theorem constant_false_circuit_counterexample:
  "True \<notin> set [False, False, False, False] \<and>
   map (\<lambda>(k, r). type (heap (fst example_constant) r)) (nodes (snd example_constant))
     = [INPUT, INPUT, OUTPUT] \<and>
   length (nodes (snd example_constant)) \<noteq> 1"
proof -
  have t: "True \<notin> set [False, False, False, False]" by simp
  from generateCircuit_constant_false [OF t, where ?w0.0 = empty_world and n = 2]
  have m: "map (\<lambda>(k, r). type (heap (fst example_constant) r)) (nodes (snd example_constant))
     = [INPUT, INPUT, OUTPUT]"
    by (simp add: example_constant_def case_prod_unfold numeral_2_eq_2)
  then have "length (map (\<lambda>(k, r). type (heap (fst example_constant) r)) (nodes (snd example_constant))) = 3"
    by simp
  then have "length (nodes (snd example_constant)) \<noteq> 1" by simp
  with t m show ?thesis by simp
qed

section \<open>The truth table of a synthesized circuit\<close>

text \<open>
  \<open>generateCircuit\<close> reads a minterm index with input 0 as its high bit
  (\<open>rowIdx >> (inputCount - 1 - bit)\<close>), \<open>getTruthTable\<close> gives input 0 the low bit
  of the row number (\<open>i >> idx\<close>). \<open>bit_reverse n i\<close> is \<open>i\<close> with its \<open>n\<close> low bits
  in the opposite order: the index under which the output vector lists the assignment
  of row \<open>i\<close>.
\<close>

definition bit_reverse :: "nat \<Rightarrow> nat \<Rightarrow> nat" where
  "bit_reverse n i = horner_sum of_bool 2 (map (\<lambda>k. bit i (n - 1 - k)) [0..<n])"

lemma bit_bit_reverse: "bit (bit_reverse n i) k \<longleftrightarrow> k < n \<and> bit i (n - 1 - k)"
  by (auto simp: bit_reverse_def bit_horner_sum_bit_iff)

lemma bit_above: "(row::nat) < 2 ^ n \<Longrightarrow> n \<le> k \<Longrightarrow> \<not> bit row k"
proof -
  assume a: "row < 2 ^ n" "n \<le> k"
  then have "(2::nat) ^ n \<le> 2 ^ k" by (simp add: power_increasing)
  with a(1) have "row < 2 ^ k" by (rule less_le_trans)
  then show ?thesis by (simp add: bit_iff_odd)
qed

lemma bit_reverse_less: "bit_reverse n i < 2 ^ n"
proof -
  have "bit_reverse n i < 2 ^ length (map (\<lambda>k. bit i (n - 1 - k)) [0..<n])"
    unfolding bit_reverse_def by (rule horner_sum_of_bool_2_less)
  then show ?thesis by simp
qed

lemma bit_reverse_iff:
  assumes "row < 2 ^ n"
  shows "(\<forall>b < n. bit i b = bit row (n - 1 - b)) \<longleftrightarrow> row = bit_reverse n i"
proof
  assume r: "row = bit_reverse n i"
  show "\<forall>b < n. bit i b = bit row (n - 1 - b)"
  proof (intro allI impI)
    fix b assume "b < n"
    then have "n - 1 - b < n" "n - 1 - (n - 1 - b) = b" by simp_all
    then show "bit i b = bit row (n - 1 - b)" by (simp add: r bit_bit_reverse)
  qed
next
  assume a: "\<forall>b < n. bit i b = bit row (n - 1 - b)"
  show "row = bit_reverse n i"
  proof (rule bit_eqI)
    fix k
    show "bit row k = bit (bit_reverse n i) k"
    proof (cases "k < n")
      case True
      then have "n - 1 - k < n" "n - 1 - (n - 1 - k) = k" by simp_all
      with a have "bit i (n - 1 - k) = bit row k" by metis
      with True show ?thesis by (simp add: bit_bit_reverse)
    next
      case False
      with assms bit_above [of row n k] show ?thesis by (simp add: bit_bit_reverse)
    qed
  qed
qed


lemma bit_reverse_one: "i < 2 \<Longrightarrow> bit_reverse 1 i = i"
proof -
  assume "i < 2"
  then have "i = 0 \<or> i = 1" by arith
  then show ?thesis by (auto simp: bit_reverse_def bit_0)
qed

lemma minterms_mem: "row \<in> set (minterms_of outs) \<longleftrightarrow> row < length outs \<and> outs ! row"
  by (auto simp: minterms_of_def)

lemma inputs_by_type:
  assumes bs: "bstate w c (input_keys n @ K')" and nodes: "nodes c = zip (input_keys n) ins @ ys"
    and len: "length ins = n" and K': "\<forall>k \<in> set K'. key_type k \<noteq> INPUT"
  shows "getNodesByType (heap w) c INPUT = ins"
proof -
  from bs have "map fst (nodes c) = input_keys n @ K'" by (simp add: bstate_def)
  then have "map fst ys = K'" using len by (simp add: nodes length_input_keys)
  with K' have "\<forall>p \<in> set ys. key_type (fst p) \<noteq> INPUT" by fastforce
  then have f2: "filter (\<lambda>(k, r). key_type k = INPUT) ys = []"
    by (fastforce simp: filter_empty_conv)
  have "\<forall>p \<in> set (zip (input_keys n) ins). key_type (fst p) = INPUT"
    by (auto simp: input_keys_def key_type_simps dest!: set_zip_leftD)
  then have f1: "filter (\<lambda>(k, r). key_type k = INPUT) (zip (input_keys n) ins) = zip (input_keys n) ins"
    by (auto simp: filter_id_conv)
  show ?thesis
    unfolding getNodesByType_keys [OF bs] nodes using len
    by (simp add: f1 f2 length_input_keys)
qed

lemma output_by_type:
  assumes bs: "bstate w c K" and one: "length (filter (\<lambda>k. key_type k = OUTPUT) K) = 1"
    and lo: "map_of (nodes c) k = Some out" and kt: "key_type k = OUTPUT"
  shows "getNodesByType (heap w) c OUTPUT = [out]"
proof -
  from lo have "(k, out) \<in> set (nodes c)" by (rule map_of_SomeD)
  with kt have "out \<in> set (getNodesByType (heap w) c OUTPUT)"
    unfolding getNodesByType_keys [OF bs] by force
  moreover have "length (getNodesByType (heap w) c OUTPUT) = 1"
    unfolding count_by_keys [OF bs] by (rule one)
  ultimately show ?thesis by (cases "getNodesByType (heap w) c OUTPUT") auto
qed

lemma literal_value:
  assumes lit: "literal h ins n row b l" and ss: "same_structure h h'"
    and st: "settled h' N" and l: "l \<in> set N"
  shows "value_n (h' l) \<longleftrightarrow> (value_n (h' (ins ! b)) \<longleftrightarrow> direct n row b)"
proof (cases "direct n row b")
  case True
  with lit show ?thesis by (simp add: literal_def)
next
  case False
  with lit have ty: "type (h l) = NOT" and inp: "inputs (h l) = [ins ! b]" by (simp_all add: literal_def)
  from ty inp have ty': "type (h' l) = NOT" and inp': "inputs (h' l) = [ins ! b]"
    by (simp_all add: same_structure_fields [OF ss])
  from st l ty' have "value_n (h' l) = compute h' l" by (simp add: settled_def)
  with ty' inp' False show ?thesis by (simp add: compute_def NotGate_compute_def)
qed

lemma minterm_value:
  assumes mg: "minterm_gate h ins n row g" and ss: "same_structure h h'"
    and st: "settled h' N" and g: "g \<in> set N" and sub: "set (inputs (h g)) \<subseteq> set N"
  shows "value_n (h' g) \<longleftrightarrow> (\<forall>b < n. value_n (h' (ins ! b)) \<longleftrightarrow> direct n row b)"
proof -
  from mg have ty: "type (h g) = AND" and len: "length (inputs (h g)) = n"
    and lits: "\<forall>b < n. literal h ins n row b (inputs (h g) ! b)" by (simp_all add: minterm_gate_def)
  from ty have ty': "type (h' g) = AND" by (simp add: same_structure_fields [OF ss])
  have inp': "inputs (h' g) = inputs (h g)" by (simp add: same_structure_fields [OF ss])
  from st g ty' have "value_n (h' g) = compute h' g" by (simp add: settled_def)
  with ty' inp' have v: "value_n (h' g) \<longleftrightarrow> (\<forall>b < n. value_n (h' (inputs (h g) ! b)))"
    by (simp add: compute_def AndGate_compute_def list_all_length len)
  have "value_n (h' (inputs (h g) ! b)) \<longleftrightarrow> (value_n (h' (ins ! b)) \<longleftrightarrow> direct n row b)"
    if b: "b < n" for b
  proof -
    from b len sub have "inputs (h g) ! b \<in> set N" by (auto simp: subset_iff)
    from literal_value [OF _ ss st this] lits b show ?thesis by blast
  qed
  with v show ?thesis by blast
qed

lemma synthesized_value:
  assumes syn: "synthesized w c n ms ins gs org out" and n: "n \<le> 32"
    and ms: "\<forall>row \<in> set ms. row < 2 ^ n"
    and ss: "same_structure (heap w) h'" and st: "settled h' (node_refs c)"
    and iv: "\<forall>b < n. value_n (h' (ins ! b)) = bit i b"
  shows "value_n (h' out) \<longleftrightarrow> bit_reverse n i \<in> set ms"
proof -
  let ?K = "input_keys n @ gate_keys n ms @ [''OR_FINAL'', ''OUTPUT'']"
  from syn have bs: "bstate w c ?K" and ag: "all_gates w c ins n ms gs"
    and lo: "map_of (nodes c) ''OR_FINAL'' = Some org" and io: "inputs (heap w org) = gs"
    and lout: "map_of (nodes c) ''OUTPUT'' = Some out" and iout: "inputs (heap w out) = [org]"
    by (simp_all add: synthesized_def)
  from bs have wf: "wellformed (heap w) c" by (simp add: bstate_def)
  from ag have lg: "length gs = length ms" by (simp add: all_gates_def)
  note F = same_structure_fields [OF ss]
  from bstate_lookup [OF bs lout] have outN: "out \<in> set (node_refs c)"
    and outT: "type (heap w out) = OUTPUT" by (simp_all add: key_type_simps)
  from bstate_lookup [OF bs lo] have orgN: "org \<in> set (node_refs c)"
    and orgT: "type (heap w org) = OR" by (simp_all add: key_type_simps)
  from st outN outT have "value_n (h' out) = compute h' out" by (simp add: settled_def F)
  with outT iout have v1: "value_n (h' out) = value_n (h' org)"
    by (simp add: compute_def OutputNode_compute_def F)
  from st orgN orgT have "value_n (h' org) = compute h' org" by (simp add: settled_def F)
  with orgT io have v2: "value_n (h' org) \<longleftrightarrow> (\<exists>j < length ms. value_n (h' (gs ! j)))"
    by (simp add: compute_def OrGate_compute_def F list_ex_length lg)
  have v3: "value_n (h' (gs ! j)) \<longleftrightarrow> ms ! j = bit_reverse n i" if j: "j < length ms" for j
  proof -
    from ag j have lk: "map_of (nodes c) (AND_id j) = Some (gs ! j)"
      and mg: "minterm_gate (heap w) ins n (int (ms ! j)) (gs ! j)" by (simp_all add: all_gates_def)
    from bstate_lookup(1) [OF bs lk] have gN: "gs ! j \<in> set (node_refs c)" .
    with wf have sub: "set (inputs (heap w (gs ! j))) \<subseteq> set (node_refs c)"
      by (simp add: wellformed_def)
    from j ms have lt: "ms ! j < 2 ^ n" by simp
    have "value_n (h' (gs ! j)) \<longleftrightarrow> (\<forall>b < n. value_n (h' (ins ! b)) \<longleftrightarrow> direct n (int (ms ! j)) b)"
      by (rule minterm_value [OF mg ss st gN sub])
    also have "\<dots> \<longleftrightarrow> (\<forall>b < n. bit i b = bit (ms ! j) (n - 1 - b))"
      using iv by (simp add: direct_bit [OF n])
    also have "\<dots> \<longleftrightarrow> ms ! j = bit_reverse n i" by (rule bit_reverse_iff [OF lt])
    finally show ?thesis .
  qed
  from v1 v2 v3 have "value_n (h' out) \<longleftrightarrow> (\<exists>j < length ms. ms ! j = bit_reverse n i)" by auto
  then show ?thesis by (auto simp: in_set_conv_nth)
qed

lemma assigned_inputs:
  assumes as: "assigned h c (int i) hi" and ins: "getNodesByType h c INPUT = ins"
    and n: "length ins \<le> 32"
  shows "\<forall>b < length ins. value_n (hi (ins ! b)) = bit i b"
  using as n unfolding assigned_def ins by (simp add: bit_of_nat_iff_bit)

lemma single_output_row:
  "id_n (h out) \<noteq> ''__proto__'' \<Longrightarrow>
     map snd (outputs_row (make_row h ins [out])) = [value_n (h out)]"
  by (simp add: make_row_def js_set_def)

lemma round_trip_minterms:
  assumes ne: "minterms_of outs \<noteq> []" and len: "length outs = 2 ^ n" and n: "n < 31"
    and g: "generateCircuit w0 n outs = (w, c)" and i: "i < 2 ^ n"
  shows "length (getTruthTable (heap w) c) = 2 ^ n \<and>
     map snd (outputs_row (getTruthTable (heap w) c ! i)) = [outs ! bit_reverse n i]"
proof -
  let ?ms = "minterms_of outs"
  let ?K' = "gate_keys n ?ms @ [''OR_FINAL'', ''OUTPUT'']"
  from generateCircuit_minterms [OF ne, of w0 n] g
  obtain ins gs org out where syn: "synthesized w c n ?ms ins gs org out" by auto
  from syn obtain ys where bs: "bstate w c (input_keys n @ ?K')" and li: "length ins = n"
    and nodes: "nodes c = zip (input_keys n) ins @ ys"
    and lout: "map_of (nodes c) ''OUTPUT'' = Some out"
    unfolding synthesized_def by blast
  have K': "\<forall>k \<in> set ?K'. key_type k \<noteq> INPUT"
    by (auto simp: key_type_simps dest!: gate_keys_mem)
  have I: "getNodesByType (heap w) c INPUT = ins" by (rule inputs_by_type [OF bs nodes li K'])
  have "length (filter (\<lambda>k. key_type k = OUTPUT) (input_keys n @ ?K')) = 1"
    by (simp add: filter_input_keys count_gate_keys key_type_simps)
  from output_by_type [OF bs this lout] have O: "getNodesByType (heap w) c OUTPUT = [out]"
    by (simp add: key_type_simps)
  note R = bstate_runs(1,2) [OF bs same_structure_refl]
  from n li have n31: "length (getNodesByType (heap w) c INPUT) < 31" by (simp add: I)
  from truth_table_acyclic [OF R n31]
  have tl: "length (getTruthTable (heap w) c) = 2 ^ n"
    and rows: "\<forall>i < 2 ^ n. \<exists>hi. assigned (heap w) c (int i) hi \<and>
        getTruthTable (heap w) c ! i = make_row hi ins [out]"
    unfolding I O li by simp_all
  from rows i obtain hi where as: "assigned (heap w) c (int i) hi"
    and row: "getTruthTable (heap w) c ! i = make_row hi ins [out]" by blast
  from as have ss: "same_structure (heap w) hi" and st: "settled hi (node_refs c)"
    by (simp_all add: assigned_def)
  from assigned_inputs [OF as I] n li have iv: "\<forall>b < n. value_n (hi (ins ! b)) = bit i b" by simp
  have ms: "\<forall>row \<in> set ?ms. row < 2 ^ n" by (simp add: minterms_mem len)
  from n have n32: "n \<le> 32" by simp
  from synthesized_value [OF syn n32 ms ss st iv]
  have "value_n (hi out) \<longleftrightarrow> bit_reverse n i \<in> set ?ms" .
  also have "\<dots> \<longleftrightarrow> outs ! bit_reverse n i"
    using bit_reverse_less [of n i] by (simp add: minterms_mem len)
  finally have "value_n (hi out) = outs ! bit_reverse n i" .
  moreover have "id_n (hi out) \<noteq> ''__proto__''"
    using bstate_lookup(3) [OF bs lout] by (simp add: same_structure_fields [OF ss])
  ultimately show ?thesis using tl by (simp add: row single_output_row)
qed

lemma round_trip_constant:
  assumes e: "minterms_of outs = []" and len: "length outs = 2 ^ n" and n: "n < 31"
    and g: "generateCircuit w0 n outs = (w, c)" and i: "i < 2 ^ n"
  shows "length (getTruthTable (heap w) c) = 2 ^ n \<and>
     map snd (outputs_row (getTruthTable (heap w) c ! i)) = [outs ! bit_reverse n i]"
proof -
  from generateCircuit_constant [OF e, of w0 n] g
  obtain ins out where bs: "bstate w c (input_keys n @ [''OUTPUT_FINAL''])" and li: "length ins = n"
    and nodes: "nodes c = zip (input_keys n) ins @ [(''OUTPUT_FINAL'', out)]"
    and u: "unwired (heap w) c" by auto
  have I: "getNodesByType (heap w) c INPUT = ins"
    by (rule inputs_by_type [OF bs nodes li]) (simp add: key_type_simps)
  from bs have "wellformed (heap w) c" by (simp add: bstate_def)
  then have "distinct (map fst (nodes c))" unfolding wellformed_def by (rule conjunct1)
  moreover have "(''OUTPUT_FINAL'', out) \<in> set (nodes c)" by (simp add: nodes)
  ultimately have lout: "map_of (nodes c) ''OUTPUT_FINAL'' = Some out" by (rule map_of_is_SomeI)
  have "length (filter (\<lambda>k. key_type k = OUTPUT) (input_keys n @ [''OUTPUT_FINAL''])) = 1"
    by (simp add: filter_input_keys key_type_simps)
  from output_by_type [OF bs this lout] have O: "getNodesByType (heap w) c OUTPUT = [out]"
    by (simp add: key_type_simps)
  note R = bstate_runs(1,2) [OF bs same_structure_refl]
  from n li have n31: "length (getNodesByType (heap w) c INPUT) < 31" by (simp add: I)
  from truth_table_acyclic [OF R n31]
  have tl: "length (getTruthTable (heap w) c) = 2 ^ n"
    and rows: "\<forall>i < 2 ^ n. \<exists>hi. assigned (heap w) c (int i) hi \<and>
        getTruthTable (heap w) c ! i = make_row hi ins [out]"
    unfolding I O li by simp_all
  from rows i obtain hi where as: "assigned (heap w) c (int i) hi"
    and row: "getTruthTable (heap w) c ! i = make_row hi ins [out]" by blast
  from as have ss: "same_structure (heap w) hi" and st: "settled hi (node_refs c)"
    by (simp_all add: assigned_def)
  note F = same_structure_fields [OF ss]
  from bstate_lookup [OF bs lout] have outN: "out \<in> set (node_refs c)"
    and outT: "type (heap w out) = OUTPUT" by (simp_all add: key_type_simps)
  from u outN have "inputs (heap w out) = []" by (simp add: unwired_def)
  moreover from st outN outT have "value_n (hi out) = compute hi out" by (simp add: settled_def F)
  ultimately have v: "\<not> value_n (hi out)" using outT
    by (simp add: compute_def OutputNode_compute_def F)
  from e have "True \<notin> set outs" using minterms_nonempty [of outs] by simp
  moreover have "outs ! bit_reverse n i \<in> set outs"
    using bit_reverse_less [of n i] by (simp add: len)
  ultimately have "\<not> outs ! bit_reverse n i" by (cases "outs ! bit_reverse n i") simp_all
  moreover have "id_n (hi out) \<noteq> ''__proto__''"
    using bstate_lookup(3) [OF bs lout] by (simp add: F)
  ultimately show ?thesis using v tl by (simp add: row single_output_row)
qed

lemma generateCircuit_round_trip:
  assumes len: "length outs = 2 ^ n" and n: "n < 31"
  shows "case generateCircuit w0 n outs of (w, c) \<Rightarrow>
     map (\<lambda>row. map snd (outputs_row row)) (getTruthTable (heap w) c) =
       map (\<lambda>i. [outs ! bit_reverse n i]) [0..<2 ^ n]"
proof -
  obtain w c where g: "generateCircuit w0 n outs = (w, c)" by (cases "generateCircuit w0 n outs")
  have r: "length (getTruthTable (heap w) c) = 2 ^ n \<and>
     map snd (outputs_row (getTruthTable (heap w) c ! i)) = [outs ! bit_reverse n i]"
    if "i < 2 ^ n" for i
    using round_trip_minterms [OF _ len n g that] round_trip_constant [OF _ len n g that]
    by (cases "minterms_of outs = []") simp_all
  from r [of 0] have tl: "length (getTruthTable (heap w) c) = 2 ^ n" by simp
  have "map (\<lambda>row. map snd (outputs_row row)) (getTruthTable (heap w) c) =
       map (\<lambda>i. [outs ! bit_reverse n i]) [0..<2 ^ n]"
  proof (rule nth_equalityI)
    show "length (map (\<lambda>row. map snd (outputs_row row)) (getTruthTable (heap w) c)) =
        length (map (\<lambda>i. [outs ! bit_reverse n i]) [0..<2 ^ n])" by (simp add: tl)
  next
    fix i assume "i < length (map (\<lambda>row. map snd (outputs_row row)) (getTruthTable (heap w) c))"
    then have i: "i < 2 ^ n" by (simp add: tl)
    with r [OF i] tl show "map (\<lambda>row. map snd (outputs_row row)) (getTruthTable (heap w) c) ! i =
        map (\<lambda>i. [outs ! bit_reverse n i]) [0..<2 ^ n] ! i" by simp
  qed
  then show ?thesis by (simp add: g)
qed

lemma bit_reverse_two:
  "bit_reverse 2 0 = 0" "bit_reverse 2 (Suc 0) = 2" "bit_reverse 2 2 = 1" "bit_reverse 2 3 = 3"
  by code_simp+

lemma upt_four: "[0..<4] = [0, 1, 2, 3::nat]"
  by code_simp

lemma example_table:
  "map (\<lambda>row. map snd (outputs_row row))
     (getTruthTable (heap (fst example_synthesis)) (snd example_synthesis)) =
   [[False], [False], [True], [False]]"
proof -
  have l: "length [False, True, False, False] = 2 ^ 2" and n: "(2::nat) < 31" by simp_all
  from generateCircuit_round_trip [OF l n, where ?w0.0 = empty_world] show ?thesis
    by (simp add: example_synthesis_def case_prod_unfold upt_four bit_reverse_two)
qed

lemma generated_inputs_row:
  assumes bs: "bstate w c (input_keys n @ K')" and nodes: "nodes c = zip (input_keys n) ins @ ys"
    and li: "length ins = n" and K': "\<forall>k \<in> set K'. key_type k \<noteq> INPUT"
    and n: "n < 31" and i: "i < 2 ^ n" and k: "k < n"
  shows "map_of (inputs_row (getTruthTable (heap w) c ! i)) (INPUT_id k) = Some (bit i k)"
proof -
  have I: "getNodesByType (heap w) c INPUT = ins" by (rule inputs_by_type [OF bs nodes li K'])
  note R = bstate_runs(1,2) [OF bs same_structure_refl]
  from n li have n31: "length (getNodesByType (heap w) c INPUT) < 31" by (simp add: I)
  from truth_table_inputs [OF R n31] i k li
  have r: "map_of (inputs_row (getTruthTable (heap w) c ! i)) (id_n (heap w (ins ! k))) =
      (if id_n (heap w (ins ! k)) = ''__proto__'' then None else Some (bit i k))"
    unfolding I by simp
  from k li have "(input_keys n ! k, ins ! k) \<in> set (zip (input_keys n) ins)"
    by (auto simp: in_set_zip length_input_keys)
  with k have "(INPUT_id k, ins ! k) \<in> set (nodes c)" by (simp add: nodes input_keys_def)
  moreover from R(1) have "\<forall>(k, r) \<in> set (nodes c). id_n (heap w r) = k" by (simp add: wellformed_def)
  ultimately have "id_n (heap w (ins ! k)) = INPUT_id k" by blast
  with r show ?thesis by (simp add: INPUT_id_def)
qed

lemma generateCircuit_inputs_row:
  assumes n: "n < 31" and i: "i < 2 ^ n" and k: "k < n"
  shows "case generateCircuit w0 n outs of (w, c) \<Rightarrow>
     map_of (inputs_row (getTruthTable (heap w) c ! i)) (INPUT_id k) = Some (bit i k)"
proof (cases "minterms_of outs = []")
  case True
  from generateCircuit_constant [OF True, of w0 n]
  obtain w c ins out where g: "generateCircuit w0 n outs = (w, c)"
    and bs: "bstate w c (input_keys n @ [''OUTPUT_FINAL''])" and li: "length ins = n"
    and nodes: "nodes c = zip (input_keys n) ins @ [(''OUTPUT_FINAL'', out)]" by blast
  have "\<forall>k \<in> set [''OUTPUT_FINAL'']. key_type k \<noteq> INPUT" by (simp add: key_type_simps)
  from generated_inputs_row [OF bs nodes li this n i k] show ?thesis by (simp add: g)
next
  case False
  let ?ms = "minterms_of outs"
  let ?K' = "gate_keys n ?ms @ [''OR_FINAL'', ''OUTPUT'']"
  from generateCircuit_minterms [OF False, of w0 n]
  obtain w c ins gs org out where g: "generateCircuit w0 n outs = (w, c)"
    and syn: "synthesized w c n ?ms ins gs org out" by blast
  from syn obtain ys where bs: "bstate w c (input_keys n @ ?K')" and li: "length ins = n"
    and nodes: "nodes c = zip (input_keys n) ins @ ys"
    unfolding synthesized_def by blast
  have K': "\<forall>k \<in> set ?K'. key_type k \<noteq> INPUT"
    by (auto simp: key_type_simps dest!: gate_keys_mem)
  from generated_inputs_row [OF bs nodes li K' n i k] show ?thesis by (simp add: g)
qed

lemma INPUT_id_small: "INPUT_id 0 = ''INPUT_0''" "INPUT_id (Suc 0) = ''INPUT_1''"
  by (simp_all add: INPUT_id_def decimal.simps digit_char_def)

lemma example_row_inputs:
  "map_of (inputs_row (getTruthTable (heap (fst example_synthesis)) (snd example_synthesis) ! 1))
     ''INPUT_0'' = Some True"
  "map_of (inputs_row (getTruthTable (heap (fst example_synthesis)) (snd example_synthesis) ! 1))
     ''INPUT_1'' = Some False"
proof -
  have n: "(2::nat) < 31" and i: "(1::nat) < 2 ^ 2" by simp_all
  from generateCircuit_inputs_row [OF n i, of 0 empty_world "[False, True, False, False]"]
  show "map_of (inputs_row (getTruthTable (heap (fst example_synthesis)) (snd example_synthesis) ! 1))
     ''INPUT_0'' = Some True"
    by (simp add: example_synthesis_def case_prod_unfold INPUT_id_small bit_0)
  from generateCircuit_inputs_row [OF n i, of 1 empty_world "[False, True, False, False]"]
  show "map_of (inputs_row (getTruthTable (heap (fst example_synthesis)) (snd example_synthesis) ! 1))
     ''INPUT_1'' = Some False"
    by (simp add: example_synthesis_def case_prod_unfold INPUT_id_small bit_0 bit_Suc)
qed

section \<open>Claim about the synthesis round trip\<close>

text \<open>
  C1. The claim has row i of the truth table of the generated circuit match entry i of
  the output vector. \<open>generateCircuit\<close> reads the index of an entry with input 0 as the
  high bit, as its comment and the synthesis dialog say; \<open>getTruthTable\<close> numbers its
  rows with input 0 as the low bit. For two inputs and the vector false, true, false,
  false the output column of the table is false, false, true, false: row 1 records
  true for \<open>INPUT_0\<close> and false for \<open>INPUT_1\<close>, the assignment of entry 2, and holds
  entry 2 of the vector; row 2 holds entry 1.
\<close>

theorem synthesis_round_trip_diverges:
  "length [False, True, False, False] = 2 ^ 2 \<and>
   map (\<lambda>row. map snd (outputs_row row))
     (getTruthTable (heap (fst example_synthesis)) (snd example_synthesis)) =
   [[False], [False], [True], [False]] \<and>
   map_of (inputs_row (getTruthTable (heap (fst example_synthesis)) (snd example_synthesis) ! 1))
     ''INPUT_0'' = Some True \<and>
   map_of (inputs_row (getTruthTable (heap (fst example_synthesis)) (snd example_synthesis) ! 1))
     ''INPUT_1'' = Some False \<and>
   map (\<lambda>row. map snd (outputs_row row))
     (getTruthTable (heap (fst example_synthesis)) (snd example_synthesis)) \<noteq>
   map (\<lambda>out. [out]) [False, True, False, False]"
  using example_table example_row_inputs by simp

end
